theory Spec2Isabelle
  imports Main "HOL-Library.Word"
begin

unbundle bit_operations_syntax

section \<open>Machine types and the C/C++ library functions the miner calls\<close>

type_synonym byte = "8 word"
type_synonym uint32 = "32 word"
type_synonym uint64 = "64 word"

text \<open>
  Stream output of an unsigned value under \<^verbatim>\<open>std::hex\<close>: the lowercase
  hexadecimal digits of the value, most significant first, at least one digit.
\<close>

definition hexdigit :: "nat \<Rightarrow> char" where
  "hexdigit n = ''0123456789abcdef'' ! n"

fun hex_str :: "nat \<Rightarrow> string" where
  "hex_str v = (if v < 16 then [hexdigit v] else hex_str (v div 16) @ [hexdigit (v mod 16)])"

declare hex_str.simps [simp del]

text \<open>
  \<^verbatim>\<open>std::setfill(c) << std::setw(n)\<close>: a field shorter than \<open>n\<close> is padded on the
  left with \<open>c\<close>; a longer one is written unchanged.
\<close>

definition setw_fill :: "nat \<Rightarrow> char \<Rightarrow> string \<Rightarrow> string" where
  "setw_fill n c s = replicate (n - length s) c @ s"

text \<open>\<^verbatim>\<open>std::string::substr(pos, len)\<close> for \<open>pos\<close> within the string.\<close>

definition substr :: "string \<Rightarrow> nat \<Rightarrow> nat \<Rightarrow> string" where
  "substr s pos len = take len (drop pos s)"

text \<open>
  \<^verbatim>\<open>strtol(s, nullptr, 16)\<close>: leading white space is skipped, then an optional sign,
  then an optional \<^verbatim>\<open>0x\<close> prefix, then the longest run of hexadecimal digits; no
  digit at all gives 0. The miner only passes strings of at most two characters, so the
  clamping to the range of \<^verbatim>\<open>long\<close> never applies and is left out.
\<close>

definition isspace :: "char \<Rightarrow> bool" where
  "isspace c = (c = CHR '' '' \<or> c = CHR 0x09 \<or> c = CHR 0x0A \<or> c = CHR 0x0B
      \<or> c = CHR 0x0C \<or> c = CHR 0x0D)"

definition xdigit_val :: "char \<Rightarrow> nat option" where
  "xdigit_val c =
     (let n = of_char c :: nat in
      if 48 \<le> n \<and> n \<le> 57 then Some (n - 48)
      else if 97 \<le> n \<and> n \<le> 102 then Some (n - 87)
      else if 65 \<le> n \<and> n \<le> 70 then Some (n - 55)
      else None)"

fun strtol_digits :: "int \<Rightarrow> string \<Rightarrow> int" where
  "strtol_digits acc [] = acc"
| "strtol_digits acc (c # cs) =
     (case xdigit_val c of None \<Rightarrow> acc | Some d \<Rightarrow> strtol_digits (acc * 16 + int d) cs)"

fun strtol_prefix :: "string \<Rightarrow> string" where
  "strtol_prefix (a # b # c # cs) =
     (if a = CHR ''0'' \<and> (b = CHR ''x'' \<or> b = CHR ''X'') \<and> xdigit_val c \<noteq> None
      then c # cs else a # b # c # cs)"
| "strtol_prefix s = s"

fun strtol_sign :: "string \<Rightarrow> int" where
  "strtol_sign (c # cs) =
     (if c = CHR ''-'' then - strtol_digits 0 (strtol_prefix cs)
      else if c = CHR ''+'' then strtol_digits 0 (strtol_prefix cs)
      else strtol_digits 0 (strtol_prefix (c # cs)))"
| "strtol_sign [] = 0"

definition strtol16 :: "string \<Rightarrow> int" where
  "strtol16 s = strtol_sign (dropWhile isspace s)"

section \<open>The standalone miner: \<^verbatim>\<open>genesis_miner.cpp\<close>\<close>

subsection \<open>class uint256\<close>

text \<open>
  \<^verbatim>\<open>uint32_t data[8]\<close>: eight 32-bit words, \<open>data[0]\<close> the least significant
  (the comparison starts at \<open>data[7]\<close>).
\<close>

type_synonym uint256 = "uint32 list"

definition zero256 :: uint256 where
  "zero256 = replicate 8 0"

text \<open>The number a \<open>uint256\<close> stands for under the ordering of \<^verbatim>\<open>operator<\<close>.\<close>

definition uint256_val :: "uint256 \<Rightarrow> nat" where
  "uint256_val d = (\<Sum>i\<leftarrow>[0..<8]. unat (d ! i) * 2 ^ (32 * i))"

text \<open>
  The one way \<^verbatim>\<open>SetHex\<close> can go wrong: for a string of odd length (at most 64) the
  last round computes \<^verbatim>\<open>hex.length() - i - 2\<close> below zero in unsigned arithmetic;
  halved and narrowed to \<^verbatim>\<open>int\<close> this is \<open>-1\<close>, \<^verbatim>\<open>byte_in_word\<close> is \<open>-1\<close> and the
  shift count \<open>-8\<close> is undefined behaviour.
\<close>

datatype error = NegativeShift

text \<open>
  The loop of \<^verbatim>\<open>SetHex\<close>, from index \<open>i\<close>. The byte value is promoted to
  \<^verbatim>\<open>int\<close>, shifted by 0, 8, 16 or 24 and stored through \<^verbatim>\<open>|=\<close> into a 32-bit
  unsigned word: the word receives the byte at that position.
\<close>

function SetHex_loop :: "string \<Rightarrow> nat \<Rightarrow> uint256 \<Rightarrow> error + uint256" where
  "SetHex_loop hex i d =
     (if i < length hex then
        (if length hex < i + 2 then Inl NegativeShift
         else
           let byte_pos = (length hex - i - 2) div 2;
               word_pos = byte_pos div 4;
               byte_in_word = byte_pos mod 4;
               byte_str = substr hex i 2;
               byte_val = (word_of_int (strtol16 byte_str) :: byte)
           in SetHex_loop hex (i + 2)
                (d[word_pos := (d ! word_pos) OR push_bit (byte_in_word * 8) (ucast byte_val)]))
      else Inr d)"
  by pat_completeness auto
termination
  by (relation "measure (\<lambda>(hex, i, d). length hex - i)") auto

declare SetHex_loop.simps [simp del]

definition SetHex :: "string \<Rightarrow> error + uint256" where
  "SetHex hex = (if length hex > 64 then Inr zero256 else SetHex_loop hex 0 zero256)"

definition GetHex :: "uint256 \<Rightarrow> string" where
  "GetHex d = concat (map (\<lambda>i. setw_fill 8 (CHR ''0'') (hex_str (unat (d ! i)))) (rev [0..<8]))"

text \<open>\<^verbatim>\<open>operator<\<close>: the loop from word \<open>n - 1\<close> down to word 0.\<close>

fun less_words :: "uint256 \<Rightarrow> uint256 \<Rightarrow> nat \<Rightarrow> bool" where
  "less_words a b 0 = False"
| "less_words a b (Suc i) =
     (if a ! i < b ! i then True
      else if a ! i > b ! i then False
      else less_words a b i)"

definition less256 :: "uint256 \<Rightarrow> uint256 \<Rightarrow> bool" where
  "less256 a b = less_words a b 8"

text \<open>\<^verbatim>\<open>operator==\<close>: \<^verbatim>\<open>memcmp\<close> over the eight words.\<close>

definition eq256 :: "uint256 \<Rightarrow> uint256 \<Rightarrow> bool" where
  "eq256 a b = (map ((!) a) [0..<8] = map ((!) b) [0..<8])"

definition le256 :: "uint256 \<Rightarrow> uint256 \<Rightarrow> bool" where
  "le256 a b = (less256 a b \<or> eq256 a b)"

subsection \<open>struct BlockHeader\<close>

record BlockHeader =
  nVersion :: uint32
  hashPrevBlock :: uint256
  hashMerkleRoot :: uint256
  nTime :: uint32
  nBits :: uint32
  nNonce :: uint32

text \<open>The four bytes of a 32-bit field, least significant first.\<close>

definition le_bytes32 :: "uint32 \<Rightarrow> byte list" where
  "le_bytes32 v = map (\<lambda>i. ucast (drop_bit (i * 8) v AND 0xFF)) [0..<4]"

text \<open>
  A hash field: the hex display is read back two characters at a time from its end
  (\<open>i = 62, 60, \<dots>, 0\<close>), each pair narrowed to a byte.
\<close>

definition hash_bytes :: "uint256 \<Rightarrow> byte list" where
  "hash_bytes u =
     (let s = GetHex u
      in map (\<lambda>k. word_of_int (strtol16 (substr s (2 * k) 2))) (rev [0..<32]))"

definition Serialize :: "BlockHeader \<Rightarrow> byte list" where
  "Serialize h =
     le_bytes32 (nVersion h) @ hash_bytes (hashPrevBlock h) @ hash_bytes (hashMerkleRoot h)
       @ le_bytes32 (nTime h) @ le_bytes32 (nBits h) @ le_bytes32 (nNonce h)"

subsection \<open>Hash\<close>

text \<open>
  OpenSSL's SHA-256 is not part of the repository: it is the parameter \<open>SHA256\<close>, from a
  message to its digest. \<^verbatim>\<open>unsigned char hash[SHA256_DIGEST_LENGTH]\<close> holds the 32
  bytes that \<^verbatim>\<open>SHA256_Final\<close> writes.
\<close>

definition sha256_final :: "(byte list \<Rightarrow> byte list) \<Rightarrow> byte list \<Rightarrow> byte list" where
  "sha256_final SHA256 data = map ((!) (SHA256 data)) [0..<32]"

text \<open>
  Lines 125 to 130: the 32 bytes are written as 64 hex digits, \<^verbatim>\<open>hash[0]\<close> first,
  and the string is handed to the constructor of \<^verbatim>\<open>uint256\<close>.
\<close>

definition digest_uint256 :: "byte list \<Rightarrow> error + uint256" where
  "digest_uint256 hash =
     (let ss = concat (map (\<lambda>i. setw_fill 2 (CHR ''0'') (hex_str (unat (hash ! i)))) [0..<32])
      in SetHex ss)"

definition Hash :: "(byte list \<Rightarrow> byte list) \<Rightarrow> byte list \<Rightarrow> error + uint256" where
  "Hash SHA256 data =
     (let hash1 = sha256_final SHA256 data;
          hash2 = sha256_final SHA256 hash1
      in digest_uint256 hash2)"

subsection \<open>main: the search loop\<close>

text \<open>What the loop has when it leaves through \<^verbatim>\<open>break\<close>.\<close>

record mined =
  mined_header :: BlockHeader
  mined_hash :: uint256
  mined_hashes :: uint64

text \<open>Lines 178 to 183: the nonce is incremented; when it reads 0 the time is.\<close>

definition next_nonce :: "BlockHeader \<Rightarrow> BlockHeader" where
  "next_nonce g =
     (let g1 = g\<lparr>nNonce := nNonce g + 1\<rparr>
      in if nNonce g1 = 0 then g1\<lparr>nTime := nTime g1 + 1, nNonce := 0\<rparr> else g1)"

text \<open>
  \<^verbatim>\<open>while (true)\<close>: the loop has no exit but the \<^verbatim>\<open>break\<close>, so it is a partial
  function; \<open>None\<close> is the run that never ends. The progress line printed every 100000
  hashes changes no variable and is left out.
\<close>

partial_function (option) mine_loop ::
  "(byte list \<Rightarrow> byte list) \<Rightarrow> uint256 \<Rightarrow> BlockHeader \<Rightarrow> uint64 \<Rightarrow> (error + mined) option" where
  "mine_loop SHA256 target genesis hashes =
     (case Hash SHA256 (Serialize genesis) of
        Inl e \<Rightarrow> Some (Inl e)
      | Inr hash \<Rightarrow>
          (let hashes1 = hashes + 1
           in if le256 hash target
              then Some (Inr \<lparr>mined_header = genesis, mined_hash = hash, mined_hashes = hashes1\<rparr>)
              else mine_loop SHA256 target (next_nonce genesis) hashes1))"





section \<open>The node: types of the node library that the miners use\<close>

text \<open>
  \<^verbatim>\<open>arith_uint256\<close> is a 256-bit unsigned integer. A \<^verbatim>\<open>CBlock\<close> is the header
  fields and the transactions; a script is the sequence of opcodes and data pushes that
  \<^verbatim>\<open>CScript() << ...\<close> appends.
\<close>

type_synonym arith_uint256 = "256 word"

datatype opcode = OP_0 | OP_DUP | OP_HASH160 | OP_EQUALVERIFY | OP_CHECKSIG

datatype script_item = Op opcode | Push "byte list" | PushNum "64 word"

type_synonym CScript = "script_item list"

record CTransaction =
  tx_version :: uint32
  tx_scriptSig :: CScript
  tx_nValue :: int
  tx_scriptPubKey :: CScript

record CBlock =
  block_nVersion :: uint32
  block_hashPrevBlock :: arith_uint256
  block_hashMerkleRoot :: arith_uint256
  block_nTime :: uint32
  block_nBits :: uint32
  block_nNonce :: uint32
  block_vtx :: "CTransaction list"

text \<open>
  Modelled from the spec: \<^verbatim>\<open>arith_uint256::SetCompact\<close> is missing from the sources.
  The spec's \<open>DecodeCompact\<close>: the top byte is the exponent \<open>E\<close>, the low three bytes
  the mantissa \<open>M\<close> with the sign bit masked off; the target is \<open>M\<close> shifted right by
  \<open>8 * (3 - E)\<close> bits if \<open>E \<le> 3\<close> and left by \<open>8 * (E - 3)\<close> bits otherwise, within
  256 bits (what is shifted out is lost).
\<close>

definition DecodeCompact :: "uint32 \<Rightarrow> arith_uint256" where
  "DecodeCompact bits =
     (let E = unat (drop_bit 24 bits);
          M = bits AND 0x007fffff
      in if E \<le> 3 then ucast (drop_bit (8 * (3 - E)) M)
         else push_bit (8 * (E - 3)) (ucast M))"

section \<open>The kernel's genesis miner: \<^verbatim>\<open>kernel/genesis_customcoin.cpp\<close>\<close>

text \<open>
  \<^verbatim>\<open>SetCompact\<close> and \<^verbatim>\<open>UintToArith256(genesis.GetHash())\<close> belong to the node
  library and are parameters. Lines 50 to 53:
\<close>

definition kernel_hashTarget ::
  "(uint32 \<Rightarrow> arith_uint256) \<Rightarrow> CBlock \<Rightarrow> arith_uint256 \<Rightarrow> arith_uint256" where
  "kernel_hashTarget SetCompact genesis powLimit =
     (let hashTarget = SetCompact (block_nBits genesis)
      in if hashTarget > powLimit then powLimit else hashTarget)"

text \<open>Lines 55 to 72; the line printed every 10000 nonces is left out.\<close>

partial_function (option) kernel_loop ::
  "(CBlock \<Rightarrow> arith_uint256) \<Rightarrow> arith_uint256 \<Rightarrow> CBlock \<Rightarrow> uint32 \<Rightarrow> (CBlock \<times> uint32) option" where
  "kernel_loop GetHash hashTarget genesis n =
     (let genesis1 = genesis\<lparr>block_nNonce := n\<rparr>;
          hash = GetHash genesis1
      in if hash \<le> hashTarget then Some (genesis1, n)
         else kernel_loop GetHash hashTarget genesis1 (n + 1))"

definition MineCustomCoinGenesisBlock ::
  "(uint32 \<Rightarrow> arith_uint256) \<Rightarrow> (CBlock \<Rightarrow> arith_uint256) \<Rightarrow> CBlock \<Rightarrow> arith_uint256
     \<Rightarrow> (CBlock \<times> uint32) option" where
  "MineCustomCoinGenesisBlock SetCompact GetHash genesis powLimit =
     kernel_loop GetHash (kernel_hashTarget SetCompact genesis powLimit) genesis 0"

section \<open>The multi-threaded miner: \<^verbatim>\<open>spoofcoin/miner.cpp\<close>\<close>

text \<open>A \<^verbatim>\<open>double\<close>: the hash rate is stored and printed, never computed with here.\<close>

typedecl double

record MiningConfig =
  threads :: "32 word"
  use_cpu_mining :: bool
  adaptive_difficulty :: bool
  smart_fee_selection :: bool
  mining_address :: CScript
  max_block_weight :: "64 word"
  min_tx_fee :: "64 word"

record MiningStats =
  hashes_computed :: uint64
  blocks_found :: uint64
  hash_rate :: double
  start_time :: "64 word"
  is_mining :: bool

text \<open>Of the chain parameters only the proof-of-work limit matters to mining.\<close>

record CChainParams =
  powLimit :: arith_uint256

text \<open>
  The miner object; the member \<^verbatim>\<open>config_\<close> is \<open>m_config\<close> here, and so on.
  \<open>m_mining_threads\<close> holds, for each thread started, the \<^verbatim>\<open>thread_id\<close> it was
  given.
\<close>

record AdvancedMiner =
  m_chainparams :: CChainParams
  m_config :: MiningConfig
  m_stats :: MiningStats
  m_mining_threads :: "int list"
  m_stop_mining :: bool
  m_current_nonce :: uint32

text \<open>\<^verbatim>\<open>StartMining\<close>; \<open>now\<close> is what \<^verbatim>\<open>GetTime()\<close> returns.\<close>

definition StartMining :: "MiningConfig \<Rightarrow> 64 word \<Rightarrow> AdvancedMiner \<Rightarrow> bool \<times> AdvancedMiner" where
  "StartMining config now m =
     (if is_mining (m_stats m) then (False, m)
      else
        let m1 = m\<lparr>m_config := config, m_stop_mining := False,
                   m_stats := (m_stats m)\<lparr>is_mining := True, start_time := now\<rparr>\<rparr>;
            m2 = m1\<lparr>m_mining_threads :=
                   m_mining_threads m1 @ map int [0..<nat (sint (threads (m_config m1)))]\<rparr>
        in (True, m2))"

definition StopMining :: "AdvancedMiner \<Rightarrow> AdvancedMiner" where
  "StopMining m =
     (if \<not> is_mining (m_stats m) then m
      else m\<lparr>m_stop_mining := True, m_stats := (m_stats m)\<lparr>is_mining := False\<rparr>,
             m_mining_threads := []\<rparr>)"

text \<open>
  \<^verbatim>\<open>CreateBlockTemplate\<close>: the template carries the coinbase transaction only; the
  previous-block hash and the Merkle root keep the null value of a fresh block. \<open>COIN\<close>
  is the node library's constant, and both calls of \<^verbatim>\<open>GetTime()\<close> return \<open>now\<close>.
\<close>

definition CreateBlockTemplate :: "int \<Rightarrow> 64 word \<Rightarrow> AdvancedMiner \<Rightarrow> CBlock" where
  "CreateBlockTemplate COIN now m =
     \<lparr>block_nVersion = 1, block_hashPrevBlock = 0, block_hashMerkleRoot = 0,
      block_nTime = ucast now, block_nBits = 0x207fffff, block_nNonce = 0,
      block_vtx = [\<lparr>tx_version = 1, tx_scriptSig = [PushNum now, Op OP_0],
                    tx_nValue = 50 * COIN,
                    tx_scriptPubKey = mining_address (m_config m)\<rparr>]\<rparr>"

text \<open>
  What a call of \<^verbatim>\<open>MineBlock\<close> leaves: its return value, \<^verbatim>\<open>nonce_out\<close> if it
  was written, the block and the miner as they are afterwards, and the nonces whose
  header the call hashed, in order.
\<close>

record mine_result =
  found :: bool
  nonce_out :: "uint32 option"
  block_out :: CBlock
  miner_out :: AdvancedMiner
  hashed :: "uint32 list"

text \<open>
  The \<^verbatim>\<open>for\<close> loop of \<^verbatim>\<open>MineBlock\<close>, run by one thread with no other thread
  touching the miner in between: the condition reads \<^verbatim>\<open>current_nonce_\<close> and
  \<^verbatim>\<open>stop_mining_\<close> anew in every round, and \<open>+ 1000\<close> is 32-bit unsigned addition.
\<close>

function MineBlock_loop ::
  "(CBlock \<Rightarrow> arith_uint256) \<Rightarrow> arith_uint256 \<Rightarrow> uint32 \<Rightarrow> CBlock \<Rightarrow> AdvancedMiner
     \<Rightarrow> uint32 list \<Rightarrow> mine_result" where
  "MineBlock_loop GetHash target nonce block m tested =
     (if nonce < m_current_nonce m + 1000 \<and> \<not> m_stop_mining m then
        (let block1 = block\<lparr>block_nNonce := nonce\<rparr>
         in if GetHash block1 \<le> target
            then \<lparr>found = True, nonce_out = Some nonce, block_out = block1, miner_out = m,
                  hashed = tested @ [nonce]\<rparr>
            else MineBlock_loop GetHash target (nonce + 1) block1
                   (m\<lparr>m_stats := (m_stats m)\<lparr>hashes_computed := hashes_computed (m_stats m) + 1\<rparr>\<rparr>)
                   (tested @ [nonce]))
      else \<lparr>found = False, nonce_out = None, block_out = block, miner_out = m,
            hashed = tested\<rparr>)"
  by pat_completeness auto
termination
proof (relation "measure (\<lambda>(GetHash, target, nonce, block, m, tested).
    unat (m_current_nonce m + 1000) - unat nonce)")
  show "wf (measure (\<lambda>(GetHash, target, nonce, block, m, tested).
      unat (m_current_nonce m + 1000) - unat nonce))"
    by simp
next
  fix GetHash :: "CBlock \<Rightarrow> arith_uint256" and target :: arith_uint256 and nonce :: uint32
    and block :: CBlock and m :: AdvancedMiner and tested :: "uint32 list" and block1 :: CBlock
  assume a: "nonce < m_current_nonce m + 1000 \<and> \<not> m_stop_mining m"
  then have lt: "unat nonce < unat (m_current_nonce m + 1000)"
    by (simp add: word_less_nat_alt)
  moreover have "unat (m_current_nonce m + 1000) < 2 ^ 32"
    using unsigned_less [of "m_current_nonce m + 1000", where ?'a = nat] by simp
  ultimately have "unat nonce + 1 < 2 ^ 32" by linarith
  then have "unat (nonce + 1) = unat nonce + 1"
    by (simp add: unat_word_ariths)
  with lt show "((GetHash, target, nonce + 1, block1,
        m\<lparr>m_stats := (m_stats m)\<lparr>hashes_computed := hashes_computed (m_stats m) + 1\<rparr>\<rparr>,
        tested @ [nonce]),
       (GetHash, target, nonce, block, m, tested))
      \<in> measure (\<lambda>(GetHash, target, nonce, block, m, tested).
          unat (m_current_nonce m + 1000) - unat nonce)"
    by simp
qed

declare MineBlock_loop.simps [simp del]

text \<open>The miner's threshold: the compact target of the block, as decoded.\<close>

definition MineBlock_target :: "(uint32 \<Rightarrow> arith_uint256) \<Rightarrow> CBlock \<Rightarrow> arith_uint256" where
  "MineBlock_target SetCompact block = SetCompact (block_nBits block)"

definition MineBlock ::
  "(uint32 \<Rightarrow> arith_uint256) \<Rightarrow> (CBlock \<Rightarrow> arith_uint256) \<Rightarrow> CBlock \<Rightarrow> AdvancedMiner
     \<Rightarrow> mine_result" where
  "MineBlock SetCompact GetHash block m =
     (let target = MineBlock_target SetCompact block;
          start = m_current_nonce m;
          m1 = m\<lparr>m_current_nonce := start + 1000\<rparr>
      in MineBlock_loop GetHash target start block m1 [])"

section \<open>The miner's command line: \<^verbatim>\<open>spoofcoin-miner.cpp\<close>\<close>

text \<open>
  The arguments as the node library's parser hands them over: the integer of
  \<^verbatim>\<open>-threads\<close> and the string of \<^verbatim>\<open>-address\<close>, each \<open>None\<close> if the flag is
  not set.
\<close>

record ArgsManager =
  arg_threads :: "64 word option"
  arg_address :: "string option"

text \<open>\<^verbatim>\<open>MiningUtils::OptimizeMiningConfig\<close>; \<open>hw\<close> is the hardware concurrency.\<close>

definition OptimizeMiningConfig :: "32 word \<Rightarrow> MiningConfig" where
  "OptimizeMiningConfig hw =
     (let config = \<lparr>threads = 1, use_cpu_mining = True, adaptive_difficulty = True,
                     smart_fee_selection = True, mining_address = [],
                     max_block_weight = 4000000, min_tx_fee = 1000\<rparr>;
          config1 = config\<lparr>threads := hw\<rparr>
      in if threads config1 = 0 then config1\<lparr>threads := 1\<rparr> else config1)"

text \<open>\<^verbatim>\<open>while (addr_bytes.size() < 20) addr_bytes.push_back(0)\<close>\<close>

function pad20 :: "byte list \<Rightarrow> byte list" where
  "pad20 addr_bytes = (if length addr_bytes < 20 then pad20 (addr_bytes @ [0]) else addr_bytes)"
  by pat_completeness auto
termination
  by (relation "measure (\<lambda>addr_bytes. 20 - length addr_bytes)") auto

declare pad20.simps [simp del]

text \<open>Lines 134 to 138: the reward script made from the address string.\<close>

definition address_script :: "string \<Rightarrow> CScript" where
  "address_script address =
     (let addr_bytes = map of_char address;
          addr_bytes1 = (if length addr_bytes > 20 then take 20 addr_bytes else addr_bytes);
          addr_bytes2 = pad20 addr_bytes1
      in [Op OP_DUP, Op OP_HASH160, Push addr_bytes2, Op OP_EQUALVERIFY, Op OP_CHECKSIG])"

definition SetupMiner :: "32 word \<Rightarrow> ArgsManager \<Rightarrow> bool \<times> MiningConfig" where
  "SetupMiner hw gArgs =
     (let config = OptimizeMiningConfig hw;
          config1 = (case arg_threads gArgs of None \<Rightarrow> config
                     | Some n \<Rightarrow> config\<lparr>threads := ucast n\<rparr>)
      in if arg_threads gArgs \<noteq> None \<and> sint (threads config1) \<le> 0 then (False, config1)
         else
           (case arg_address gArgs of
              None \<Rightarrow> (False, config1)
            | Some address \<Rightarrow>
                if address = [] then (False, config1)
                else (True, config1\<lparr>mining_address := address_script address\<rparr>)))"

section \<open>Notions the statements are written in\<close>

text \<open>The number a byte sequence spells, least significant byte first.\<close>

fun le_nat :: "byte list \<Rightarrow> nat" where
  "le_nat [] = 0"
| "le_nat (b # bs) = unat b + 256 * le_nat bs"

text \<open>The number a byte sequence spells, most significant byte first.\<close>

definition be_nat :: "byte list \<Rightarrow> nat" where
  "be_nat bs = foldl (\<lambda>acc b. 256 * acc + unat b) 0 bs"

text \<open>The hex display of a byte sequence: two lowercase digits per byte, in order.\<close>

definition hex2 :: "byte \<Rightarrow> string" where
  "hex2 b = [hexdigit (unat b div 16), hexdigit (unat b mod 16)]"

definition hex_of_bytes :: "byte list \<Rightarrow> string" where
  "hex_of_bytes bs = concat (map hex2 bs)"

text \<open>The 32 bytes of a \<open>uint256\<close>, least significant first.\<close>

definition wire_bytes :: "uint256 \<Rightarrow> byte list" where
  "wire_bytes u = concat (map (\<lambda>i. le_bytes32 (u ! i)) [0..<8])"

text \<open>Auxiliary notions of the proofs.\<close>

primrec hex_fixed :: "nat \<Rightarrow> nat \<Rightarrow> string" where
  "hex_fixed 0 v = []"
| "hex_fixed (Suc n) v = hex_fixed n (v div 16) @ [hexdigit (v mod 16)]"

definition byte_of :: "uint32 \<Rightarrow> nat \<Rightarrow> byte" where
  "byte_of w k = ucast (drop_bit (8 * k) w)"

definition put_byte :: "uint256 \<Rightarrow> nat \<Rightarrow> byte \<Rightarrow> uint256" where
  "put_byte d p b = d[p div 4 := (d ! (p div 4)) OR push_bit (p mod 4 * 8) (ucast b)]"

definition words_val :: "uint256 \<Rightarrow> nat \<Rightarrow> nat" where
  "words_val d n = (\<Sum>i\<leftarrow>[0..<n]. unat (d ! i) * 2 ^ (32 * i))"

text \<open>The header after \<open>k\<close> rounds of the standalone loop that found nothing.\<close>

definition after_rounds :: "BlockHeader \<Rightarrow> nat \<Rightarrow> BlockHeader" where
  "after_rounds g k = g\<lparr>nNonce := nNonce g + of_nat k,
     nTime := nTime g + of_nat ((unat (nNonce g) + k) div 2 ^ 32)\<rparr>"

section \<open>Concrete inputs\<close>

text \<open>A miner that is running: two threads, 5000 hashes done.\<close>

definition busy_miner :: AdvancedMiner where
  "busy_miner =
     \<lparr>m_chainparams = \<lparr>powLimit = push_bit 208 0xffff\<rparr>,
      m_config = OptimizeMiningConfig 2,
      m_stats = \<lparr>hashes_computed = 5000, blocks_found = 3, hash_rate = undefined,
                 start_time = 1737933600, is_mining = True\<rparr>,
      m_mining_threads = [0, 1], m_stop_mining = False, m_current_nonce = 7000\<rparr>"

text \<open>
  A stand-in for SHA-256 that makes the loops short: the digest of an 80-byte header is
  all zero if the low byte of its nonce is 2 and all \<open>0xFF\<close> otherwise; a 32-byte input
  is its own digest. With it, a header and a target for the standalone loop, and the same
  for the kernel's loop.
\<close>

definition toy_sha :: "byte list \<Rightarrow> byte list" where
  "toy_sha data =
     (if length data = 80
      then (if data ! 76 = 2 then replicate 32 0 else replicate 32 0xFF)
      else data)"

definition toy_header :: BlockHeader where
  "toy_header = \<lparr>nVersion = 1, hashPrevBlock = zero256, hashMerkleRoot = zero256,
     nTime = 1737933600, nBits = 0x1d00ffff, nNonce = 0\<rparr>"

definition toy_target :: uint256 where
  "toy_target = [0, 0, 0, 0, 0, 0, 0xffff0000, 0]"

definition toy_block_hash :: "CBlock \<Rightarrow> arith_uint256" where
  "toy_block_hash b = (if block_nNonce b = 2 then 5 else push_bit 255 1)"

definition toy_block :: CBlock where
  "toy_block = \<lparr>block_nVersion = 1, block_hashPrevBlock = 0, block_hashMerkleRoot = 0,
     block_nTime = 1737933600, block_nBits = 0x1d00ffff, block_nNonce = 0, block_vtx = []\<rparr>"

text \<open>
  The genesis header of \<^verbatim>\<open>main\<close> and its target, and the double SHA-256 digest of the
  header's 80 bytes (nonce 0).
\<close>

definition genesis_digest :: "byte list" where
  "genesis_digest = [135, 113, 88, 66, 129, 133, 187, 8, 100, 28, 102, 45, 111, 233, 70, 66,
     149, 77, 191, 132, 47, 235, 127, 13, 99, 170, 108, 243, 218, 219, 25, 220]"

definition genesis_merkle :: uint256 where
  "genesis_merkle = [0xfdeda33b, 0xb2127b7a, 0x3e2cc77a, 0x618f7667, 0xc31bc87f, 0x32518a88,
     0xaab89f3a, 0x4a5e1e4b]"

definition genesis_header :: BlockHeader where
  "genesis_header = \<lparr>nVersion = 1, hashPrevBlock = zero256, hashMerkleRoot = genesis_merkle,
     nTime = 1737933600, nBits = 0x1d00ffff, nNonce = 0\<rparr>"


text \<open>
  Block hashes for single runs: one that is above every target at the time 1737933600
  and zero at any other time, one between the mainnet-style limit \<open>0xffff * 2^208\<close> and
  the template's target, one above every target used here.
\<close>

definition stale_hash :: "CBlock \<Rightarrow> arith_uint256" where
  "stale_hash b = (if block_nTime b = 1737933600 then push_bit 255 1 else 0)"


definition hard_hash :: "CBlock \<Rightarrow> arith_uint256" where
  "hard_hash b = push_bit 255 1"

definition wrap_header :: BlockHeader where
  "wrap_header = toy_header\<lparr>nNonce := 0xFFFFFFFE\<rparr>"

text \<open>
  A miner whose nonce counter is still 0, and two calls of \<^verbatim>\<open>MineBlock\<close> on it, one
  after the other, each on a fresh template.
\<close>

definition idle_miner :: AdvancedMiner where
  "idle_miner =
     \<lparr>m_chainparams = \<lparr>powLimit = push_bit 208 0xffff\<rparr>,
      m_config = OptimizeMiningConfig 1,
      m_stats = \<lparr>hashes_computed = 0, blocks_found = 0, hash_rate = undefined,
                 start_time = 1737940000, is_mining = True\<rparr>,
      m_mining_threads = [0], m_stop_mining = False, m_current_nonce = 0\<rparr>"

definition first_call :: mine_result where
  "first_call = MineBlock DecodeCompact hard_hash
     (CreateBlockTemplate 100000000 1737940000 idle_miner) idle_miner"

definition second_call :: mine_result where
  "second_call = MineBlock DecodeCompact hard_hash
     (CreateBlockTemplate 100000000 1737940001 (miner_out first_call)) (miner_out first_call)"

text \<open>
  A command line: \<^verbatim>\<open>-threads=4 -address=sc1qexampleaddress0123456789\<close>.
\<close>

definition example_args :: ArgsManager where
  "example_args = \<lparr>arg_threads = Some 4, arg_address = Some ''sc1qexampleaddress0123456789''\<rparr>"

section \<open>Facts about the models\<close>

subsection \<open>Hex output and \<^verbatim>\<open>strtol\<close>\<close>

lemma length_le_bytes32: "length (le_bytes32 v) = 4"
  by (simp add: le_bytes32_def)

lemma length_hex_fixed [simp]: "length (hex_fixed n v) = n"
  by (induction n arbitrary: v) auto

lemma hex_fixed_zero: "hex_fixed n 0 = replicate n (CHR ''0'')"
  by (induction n) (auto simp: hexdigit_def replicate_append_same)

lemma length_hex_str: "v < 16 ^ n \<Longrightarrow> 0 < n \<Longrightarrow> length (hex_str v) \<le> n"
proof (induction n arbitrary: v)
  case 0
  then show ?case by simp
next
  case (Suc n)
  show ?case
  proof (cases "v < 16")
    case True
    then show ?thesis by (simp add: hex_str.simps)
  next
    case False
    with Suc.prems have "v div 16 < 16 ^ n" "0 < n"
      by (auto simp: less_mult_imp_div_less intro: Suc_lessI gr0I)
    with Suc.IH have "length (hex_str (v div 16)) \<le> n" by blast
    with False show ?thesis by (subst hex_str.simps) simp
  qed
qed

lemma setw_hex_str: "v < 16 ^ n \<Longrightarrow> 0 < n \<Longrightarrow> setw_fill n (CHR ''0'') (hex_str v) = hex_fixed n v"
proof (induction n arbitrary: v)
  case 0
  then show ?case by simp
next
  case (Suc n)
  show ?case
  proof (cases "v < 16")
    case True
    then show ?thesis
      by (simp add: hex_str.simps setw_fill_def hex_fixed_zero)
  next
    case False
    with Suc.prems have *: "v div 16 < 16 ^ n" "0 < n"
      by (auto simp: less_mult_imp_div_less intro: Suc_lessI gr0I)
    with Suc.IH have "setw_fill n (CHR ''0'') (hex_str (v div 16)) = hex_fixed n (v div 16)" by blast
    moreover have "length (hex_str (v div 16)) \<le> n" using * by (rule length_hex_str)
    ultimately show ?thesis using False
      by (subst hex_str.simps) (simp add: setw_fill_def Suc_diff_le)
  qed
qed

lemma hex_fixed_add: "hex_fixed (m + n) v = hex_fixed m (v div 16 ^ n) @ hex_fixed n v"
  by (induction n arbitrary: v) (auto simp: div_mult2_eq)

lemma hex_fixed_mod: "hex_fixed n (v mod 16 ^ n) = hex_fixed n v"
proof (induction n arbitrary: v)
  case 0
  then show ?case by simp
next
  case (Suc n)
  have "v mod (16 * 16 ^ n) div 16 = (v div 16) mod 16 ^ n"
    by (simp add: mod_mult2_eq)
  moreover have "v mod (16 * 16 ^ n) mod 16 = v mod 16"
    by (simp add: mod_mod_cancel)
  ultimately show ?case using Suc.IH by simp
qed

lemma hex2_fixed: "hex2 b = hex_fixed 2 (unat b)"
proof -
  have "unat b < 256" using unsigned_less [of b, where ?'a = nat] by simp
  then have "unat b div 16 < 16" by simp
  then show ?thesis by (simp add: hex2_def numeral_2_eq_2)
qed

lemma upt16: "[0..<16] = [0, 1, 2, 3, 4, 5, 6, 7, 8, 9, 10, 11, 12, 13, 14, 15]"
  by code_simp

lemma hexdigit_props:
  assumes "n < 16"
  shows "xdigit_val (hexdigit n) = Some n \<and> \<not> isspace (hexdigit n)
    \<and> hexdigit n \<noteq> CHR ''-'' \<and> hexdigit n \<noteq> CHR ''+''"
proof -
  from assms have "n \<in> set [0..<16]" by simp
  then show ?thesis
    unfolding upt16 by (auto simp: xdigit_val_def isspace_def hexdigit_def)
qed

lemma xdigit_val_hexdigit: "n < 16 \<Longrightarrow> xdigit_val (hexdigit n) = Some n"
  by (simp add: hexdigit_props)

lemma isspace_hexdigit: "n < 16 \<Longrightarrow> \<not> isspace (hexdigit n)"
  by (simp add: hexdigit_props)

lemma sign_hexdigit: "n < 16 \<Longrightarrow> hexdigit n \<noteq> CHR ''-'' \<and> hexdigit n \<noteq> CHR ''+''"
  by (simp add: hexdigit_props)

lemma strtol16_two_digits:
  assumes "a < 16" "b < 16"
  shows "strtol16 [hexdigit a, hexdigit b] = int (16 * a + b)"
  using assms
  by (simp add: strtol16_def isspace_hexdigit sign_hexdigit xdigit_val_hexdigit)

lemma strtol16_hex2: "word_of_int (strtol16 (hex2 b)) = b"
proof -
  have "unat b < 256" using unsigned_less [of b, where ?'a = nat] by simp
  then have "unat b div 16 < 16" by simp
  then have "strtol16 (hex2 b) = int (16 * (unat b div 16) + unat b mod 16)"
    unfolding hex2_def by (intro strtol16_two_digits) simp_all
  also have "\<dots> = int (unat b)" by simp
  finally show ?thesis by simp
qed

lemma substr_hex_of_bytes:
  "k < length bs \<Longrightarrow> substr (hex_of_bytes bs) (2 * k) 2 = hex2 (bs ! k)"
proof (induction bs arbitrary: k)
  case Nil
  then show ?case by simp
next
  case (Cons b bs)
  show ?case
  proof (cases k)
    case 0
    then show ?thesis by (simp add: substr_def hex_of_bytes_def hex2_def)
  next
    case (Suc j)
    with Cons.prems have "j < length bs" by simp
    from Cons.IH [OF this] show ?thesis
      using Suc by (simp add: substr_def hex_of_bytes_def hex2_def)
  qed
qed

subsection \<open>The bytes of words, \<^verbatim>\<open>GetHex\<close> and the hash fields of \<^verbatim>\<open>Serialize\<close>\<close>

lemma unat_byte_of: "unat (byte_of w k) = unat w div 2 ^ (8 * k) mod 256"
proof -
  have "unat (byte_of w k) = take_bit 8 (unat (drop_bit (8 * k) w))"
    by (simp only: byte_of_def unsigned_ucast_eq) simp
  also have "\<dots> = take_bit 8 (drop_bit (8 * k) (unat w))"
    by (simp only: unat_drop_bit_eq)
  finally show ?thesis by (simp add: take_bit_eq_mod drop_bit_eq_div)
qed

lemma le_bytes32_byte_of: "le_bytes32 w = map (byte_of w) [0..<4]"
proof -
  have m: "(0xFF :: uint32) = mask 8" by (simp add: mask_eq_exp_minus_1)
  have "ucast (drop_bit (i * 8) w AND 0xFF) = byte_of w i" for i
    unfolding m by (rule bit_word_eqI) (auto simp: byte_of_def bit_simps mult.commute)
  then show ?thesis by (simp add: le_bytes32_def)
qed

lemma hex_fixed_split2: "hex_fixed (n + 2) v = hex_fixed n (v div 256) @ hex_fixed 2 v"
  using hex_fixed_add [of n 2 v] by simp

lemma hex8_bytes:
  "setw_fill 8 (CHR ''0'') (hex_str (unat (w :: uint32))) =
     hex_of_bytes [byte_of w 3, byte_of w 2, byte_of w 1, byte_of w 0]"
proof -
  let ?v = "unat w"
  have "?v < 16 ^ 8" using unsigned_less [of w, where ?'a = nat] by simp
  then have "setw_fill 8 (CHR ''0'') (hex_str ?v) = hex_fixed 8 ?v"
    by (intro setw_hex_str) simp_all
  also have "hex_fixed 8 ?v = hex_fixed 6 (?v div 256) @ hex_fixed 2 ?v"
    using hex_fixed_split2 [of 6 ?v] by simp
  also have "hex_fixed 6 (?v div 256) = hex_fixed 4 (?v div 256 div 256) @ hex_fixed 2 (?v div 256)"
    using hex_fixed_split2 [of 4 "?v div 256"] by simp
  also have "hex_fixed 4 (?v div 256 div 256) =
      hex_fixed 2 (?v div 256 div 256 div 256) @ hex_fixed 2 (?v div 256 div 256)"
    using hex_fixed_split2 [of 2 "?v div 256 div 256"] by simp
  finally have *: "setw_fill 8 (CHR ''0'') (hex_str ?v) =
      hex_fixed 2 (?v div 2 ^ 24) @ hex_fixed 2 (?v div 2 ^ 16) @ hex_fixed 2 (?v div 2 ^ 8) @ hex_fixed 2 ?v"
    by (simp add: div_mult2_eq [symmetric])
  have "hex2 (byte_of w k) = hex_fixed 2 (?v div 2 ^ (8 * k))" for k
    using hex_fixed_mod [of 2 "?v div 2 ^ (8 * k)"] by (simp add: hex2_fixed unat_byte_of)
  from this [of 3] this [of 2] this [of 1] this [of 0] show ?thesis
    by (simp add: * hex_of_bytes_def)
qed

lemma upt8: "[0..<8] = [0, 1, 2, 3, 4, 5, 6, 7]"
  by code_simp

lemma upt4: "[0..<4] = [0, 1, 2, 3]"
  by code_simp

lemma length_wire_bytes: "length (wire_bytes u) = 32"
  by (simp add: wire_bytes_def upt8 length_le_bytes32)

lemma hex_of_bytes_append: "hex_of_bytes (xs @ ys) = hex_of_bytes xs @ hex_of_bytes ys"
  by (simp add: hex_of_bytes_def)

lemma GetHex_wire_bytes: "GetHex u = hex_of_bytes (rev (wire_bytes u))"
proof -
  have "setw_fill 8 (CHR ''0'') (hex_str (unat w)) = hex_of_bytes (rev (le_bytes32 w))"
    for w :: uint32
    by (simp add: hex8_bytes le_bytes32_byte_of upt4)
  then show ?thesis
    by (simp add: GetHex_def wire_bytes_def upt8 hex_of_bytes_append)
qed

lemma map_nth_rev_upt: "map ((!) xs) (rev [0..<length xs]) = rev xs"
  by (simp add: rev_map [symmetric] map_nth)

lemma hash_bytes_wire_bytes: "hash_bytes u = wire_bytes u"
proof -
  let ?bs = "rev (wire_bytes u)"
  have len: "length ?bs = 32" by (simp add: length_wire_bytes)
  have "hash_bytes u =
      map (\<lambda>k. word_of_int (strtol16 (substr (hex_of_bytes ?bs) (2 * k) 2))) (rev [0..<32])"
    by (simp add: hash_bytes_def GetHex_wire_bytes)
  also have "\<dots> = map ((!) ?bs) (rev [0..<32])"
    by (rule map_cong [OF refl]) (simp add: substr_hex_of_bytes length_wire_bytes strtol16_hex2)
  also have "\<dots> = rev ?bs"
    using map_nth_rev_upt [of ?bs] by (simp only: len)
  finally show ?thesis by simp
qed

lemma le_nat_append: "le_nat (xs @ ys) = le_nat xs + 256 ^ length xs * le_nat ys"
  by (induction xs) (auto simp: algebra_simps)

lemma le_nat_le_bytes32: "le_nat (le_bytes32 w) = unat w"
proof -
  let ?v = "unat w"
  have "?v < 2 ^ 32" using unsigned_less [of w, where ?'a = nat] by simp
  then have "?v div 16777216 < 256" by simp
  then have 3: "?v div 16777216 mod 256 = ?v div 16777216" by simp
  have "le_nat (le_bytes32 w) =
      ?v mod 256 + 256 * (?v div 256 mod 256 + 256 * (?v div 65536 mod 256 + 256 * (?v div 16777216)))"
    by (simp add: le_bytes32_byte_of upt4 unat_byte_of 3)
  also have "\<dots> = ?v"
  proof -
    have "?v div 65536 = ?v div 256 div 256" "?v div 16777216 = ?v div 256 div 256 div 256"
      by (simp_all add: div_mult2_eq [symmetric])
    then show ?thesis by (simp add: mult_div_mod_eq)
  qed
  finally show ?thesis .
qed

lemma le_nat_wire_bytes: "le_nat (wire_bytes u) = uint256_val u"
  by (simp add: wire_bytes_def uint256_val_def upt8 le_nat_append le_nat_le_bytes32 length_le_bytes32)

subsection \<open>The comparisons of \<^verbatim>\<open>uint256\<close>\<close>

lemma words_val_0 [simp]: "words_val d 0 = 0"
  by (simp add: words_val_def)

lemma words_val_Suc [simp]:
  "words_val d (Suc n) = words_val d n + unat (d ! n) * 2 ^ (32 * n)"
  by (simp add: words_val_def)

lemma uint256_val_words: "uint256_val d = words_val d 8"
  by (simp add: uint256_val_def words_val_def)

lemma words_val_less: "words_val d n < 2 ^ (32 * n)"
proof (induction n)
  case 0
  then show ?case by simp
next
  case (Suc n)
  let ?x = "unat (d ! n)" and ?p = "(2::nat) ^ (32 * n)"
  have "?x < 2 ^ 32" using unsigned_less [of "d ! n", where ?'a = nat] by simp
  then have "?x + 1 \<le> 2 ^ 32" by simp
  then have "(?x + 1) * ?p \<le> 2 ^ 32 * ?p"
    by (rule mult_le_mono1)
  moreover have "words_val d n + ?x * ?p < (?x + 1) * ?p" using Suc by simp
  ultimately have "words_val d n + ?x * ?p < 2 ^ 32 * ?p" by linarith
  also have "2 ^ 32 * ?p = 2 ^ (32 * Suc n)" by (simp add: power_add)
  finally show ?case by simp
qed

lemma less_words_val: "less_words a b n \<longleftrightarrow> words_val a n < words_val b n"
proof (induction n)
  case 0
  then show ?case by simp
next
  case (Suc n)
  let ?x = "unat (a ! n)" and ?y = "unat (b ! n)" and ?p = "(2::nat) ^ (32 * n)"
  have la: "words_val a n < ?p" and lb: "words_val b n < ?p" by (rule words_val_less)+
  consider "?x < ?y" | "?y < ?x" | "?x = ?y" by linarith
  then show ?case
  proof cases
    case 1
    then have "(?x + 1) * ?p \<le> ?y * ?p" by (intro mult_le_mono1) simp
    with la have "words_val a n + ?x * ?p < words_val b n + ?y * ?p" by (simp add: algebra_simps)
    with 1 show ?thesis by (simp add: word_less_nat_alt)
  next
    case 2
    then have "(?y + 1) * ?p \<le> ?x * ?p" by (intro mult_le_mono1) simp
    with lb have "words_val b n + ?y * ?p < words_val a n + ?x * ?p" by (simp add: algebra_simps)
    with 2 show ?thesis by (simp add: word_less_nat_alt)
  next
    case 3
    then show ?thesis using Suc by (simp add: word_less_nat_alt)
  qed
qed

lemma words_val_inj:
  "words_val a n = words_val b n \<Longrightarrow> map ((!) a) [0..<n] = map ((!) b) [0..<n]"
proof (induction n)
  case 0
  then show ?case by simp
next
  case (Suc n)
  let ?x = "unat (a ! n)" and ?y = "unat (b ! n)" and ?p = "(2::nat) ^ (32 * n)"
  have la: "words_val a n < ?p" and lb: "words_val b n < ?p" by (rule words_val_less)+
  from Suc.prems have e: "words_val a n + ?x * ?p = words_val b n + ?y * ?p" by simp
  from arg_cong [OF e, of "\<lambda>v. v div ?p"] la lb have "?x = ?y" by simp
  with e have "words_val a n = words_val b n" by simp
  moreover from \<open>?x = ?y\<close> have "a ! n = b ! n" by (simp add: word_unat_eq_iff)
  ultimately show ?case using Suc.IH by simp
qed

lemma words_val_cong:
  "map ((!) a) [0..<n] = map ((!) b) [0..<n] \<Longrightarrow> words_val a n = words_val b n"
  by (induction n) auto

lemma less256_val: "less256 a b \<longleftrightarrow> uint256_val a < uint256_val b"
  by (simp add: less256_def less_words_val uint256_val_words)

lemma eq256_val: "eq256 a b \<longleftrightarrow> uint256_val a = uint256_val b"
  unfolding eq256_def uint256_val_words
  using words_val_inj [of a 8 b] words_val_cong [of a 8 b] by blast

lemma le256_val: "le256 a b \<longleftrightarrow> uint256_val a \<le> uint256_val b"
  by (auto simp: le256_def less256_val eq256_val)

subsection \<open>What \<^verbatim>\<open>SetHex\<close> stores\<close>

lemma nth_concat_uniform:
  assumes "\<And>i. length (f i) = m" and "q < n * m"
  shows "concat (map f [0..<n]) ! q = f (q div m) ! (q mod m)"
  using assms(2)
proof (induction n)
  case 0
  then show ?case by simp
next
  case (Suc n)
  have len: "length (concat (map f [0..<n])) = n * m"
    by (induction n) (simp_all add: assms(1))
  show ?case
  proof (cases "q < n * m")
    case True
    with Suc.IH show ?thesis by (simp add: nth_append len)
  next
    case False
    with Suc.prems have lo: "n * m \<le> q" and hi: "q < n * m + m" by simp_all
    then have d: "q div m = n" by (intro div_nat_eqI) (simp_all add: mult.commute)
    have "q mod m = q - n * m"
      using div_mult_mod_eq [of q m] unfolding d by simp
    with d False show ?thesis by (simp add: nth_append len)
  qed
qed

lemma nth_wire_bytes: "q < 32 \<Longrightarrow> wire_bytes d ! q = byte_of (d ! (q div 4)) (q mod 4)"
proof -
  assume "q < 32"
  then have "wire_bytes d ! q = le_bytes32 (d ! (q div 4)) ! (q mod 4)"
    unfolding wire_bytes_def by (intro nth_concat_uniform) (simp_all add: length_le_bytes32)
  then show ?thesis by (simp add: le_bytes32_byte_of)
qed

lemma byte_of_or_push:
  assumes "k < 4" "k' < 4"
  shows "byte_of (w OR push_bit (k * 8) (ucast (b :: byte))) k' =
     (if k' = k then byte_of w k OR b else byte_of w k')"
proof (cases "k' = k")
  case True
  show ?thesis unfolding True
    by (rule bit_word_eqI) (use assms in \<open>auto simp: byte_of_def bit_simps\<close>)
next
  case False
  have "byte_of (w OR push_bit (k * 8) (ucast b)) k' = byte_of w k'"
    by (rule bit_word_eqI) (use assms False in \<open>auto simp: byte_of_def bit_simps dest: bit_imp_le_length\<close>)
  with False show ?thesis by simp
qed

lemma length_put_byte [simp]: "length (put_byte d p b) = length d"
  by (simp add: put_byte_def)

lemma wire_bytes_put_byte:
  assumes "length d = 8" "p < 32" "wire_bytes d ! p = 0"
  shows "wire_bytes (put_byte d p b) = (wire_bytes d)[p := b]"
proof (rule nth_equalityI)
  show "length (wire_bytes (put_byte d p b)) = length ((wire_bytes d)[p := b])"
    by (simp add: length_wire_bytes)
next
  fix q assume "q < length (wire_bytes (put_byte d p b))"
  then have q: "q < 32" by (simp add: length_wire_bytes)
  from assms have z: "byte_of (d ! (p div 4)) (p mod 4) = 0" by (simp add: nth_wire_bytes)
  from assms have pd: "p div 4 < length d" by simp
  show "wire_bytes (put_byte d p b) ! q = (wire_bytes d)[p := b] ! q"
  proof (cases "q div 4 = p div 4")
    case True
    then have qp: "q = p \<longleftrightarrow> q mod 4 = p mod 4"
      by (metis div_mult_mod_eq)
    show ?thesis
    proof (cases "q = p")
      case eq: True
      with q pd z show ?thesis
        by (simp add: nth_wire_bytes put_byte_def byte_of_or_push length_wire_bytes)
    next
      case ne: False
      with qp have "q mod 4 \<noteq> p mod 4" by simp
      with True ne q pd show ?thesis
        by (simp add: nth_wire_bytes put_byte_def byte_of_or_push length_wire_bytes)
    qed
  next
    case False
    then have "q \<noteq> p" by auto
    with False q pd show ?thesis
      by (simp add: nth_wire_bytes put_byte_def length_wire_bytes)
  qed
qed

lemma length_hex_of_bytes [simp]: "length (hex_of_bytes bs) = 2 * length bs"
  by (induction bs) (simp_all add: hex_of_bytes_def hex2_def)

lemma SetHex_loop_hex_of_bytes:
  assumes "length bs \<le> 32" "j \<le> length bs" "length d = 8"
    and "wire_bytes d = replicate (length bs - j) 0 @ rev (take j bs) @ replicate (32 - length bs) 0"
  shows "\<exists>d'. SetHex_loop (hex_of_bytes bs) (2 * j) d = Inr d' \<and> length d' = 8
     \<and> wire_bytes d' = rev bs @ replicate (32 - length bs) 0"
  using assms(2-)
proof (induction "length bs - j" arbitrary: j d)
  case 0
  then show ?case by (simp add: SetHex_loop.simps)
next
  case (Suc k)
  let ?n = "length bs"
  let ?p = "?n - j - 1"
  let ?d = "put_byte d ?p (bs ! j)"
  from Suc.hyps have j: "j < ?n" by simp
  with assms(1) have p: "?p < 32" by simp
  from j have "?p < ?n - j" by simp
  then have zero: "wire_bytes d ! ?p = 0"
    unfolding Suc.prems(3) by (simp only: nth_append length_replicate if_True nth_replicate)
  have step: "SetHex_loop (hex_of_bytes bs) (2 * j) d = SetHex_loop (hex_of_bytes bs) (2 * Suc j) ?d"
  proof -
    have "(2 * ?n - 2 * j - 2) div 2 = ?p" by simp
    with j show ?thesis
      by (subst SetHex_loop.simps)
        (simp add: substr_hex_of_bytes strtol16_hex2 put_byte_def Let_def)
  qed
  have "wire_bytes ?d = (wire_bytes d)[?p := bs ! j]"
    using Suc.prems(2) p zero by (rule wire_bytes_put_byte)
  also have "\<dots> = replicate (?n - Suc j) 0 @ rev (take (Suc j) bs) @ replicate (32 - ?n) 0"
  proof -
    let ?z = "replicate ?p (0 :: byte)" and ?r = "rev (take j bs) @ replicate (32 - ?n) 0"
    from j have "?n - j = Suc ?p" by simp
    moreover have "replicate (Suc ?p) (0 :: byte) = ?z @ [0]"
      by (simp only: replicate_Suc replicate_append_same)
    ultimately have "replicate (?n - j) (0 :: byte) = ?z @ [0]"
      by (simp only:)
    then have "wire_bytes d = ?z @ 0 # ?r"
      by (simp add: Suc.prems(3))
    then have "(wire_bytes d)[?p := bs ! j] = (?z @ 0 # ?r)[length ?z := bs ! j]"
      by simp
    also have "\<dots> = ?z @ bs ! j # ?r"
      by (rule list_update_length)
    also from j have "\<dots> = replicate (?n - Suc j) 0 @ rev (take (Suc j) bs) @ replicate (32 - ?n) 0"
      by (simp add: take_Suc_conv_app_nth)
    finally show ?thesis .
  qed
  finally have w: "wire_bytes ?d = replicate (?n - Suc j) 0 @ rev (take (Suc j) bs) @ replicate (32 - ?n) 0" .
  from Suc.hyps have "k = ?n - Suc j" by simp
  from Suc.hyps(1) [OF this _ _ w] j Suc.prems(2) show ?case
    unfolding step by simp
qed

lemma wire_bytes_zero256: "wire_bytes zero256 = replicate 32 0"
proof (rule nth_equalityI)
  show "length (wire_bytes zero256) = length (replicate 32 (0 :: byte))"
    by (simp add: length_wire_bytes)
next
  fix q assume "q < length (wire_bytes zero256)"
  then have q: "q < 32" by (simp add: length_wire_bytes)
  then have "q div 4 < 8" by simp
  with q show "wire_bytes zero256 ! q = replicate 32 (0 :: byte) ! q"
    by (simp add: nth_wire_bytes zero256_def byte_of_def)
qed

lemma SetHex_hex_of_bytes:
  assumes "length bs \<le> 32"
  shows "\<exists>d. SetHex (hex_of_bytes bs) = Inr d \<and> length d = 8
     \<and> wire_bytes d = rev bs @ replicate (32 - length bs) 0"
proof -
  have "wire_bytes zero256 =
      replicate (length bs - 0) 0 @ rev (take 0 bs) @ replicate (32 - length bs) 0"
    using assms by (simp add: wire_bytes_zero256 replicate_add [symmetric])
  from SetHex_loop_hex_of_bytes [OF assms _ _ this] assms show ?thesis
    by (simp add: SetHex_def zero256_def)
qed

subsection \<open>Serialization, digests and the two search loops\<close>

lemma Serialize_parts:
  "Serialize h = le_bytes32 (nVersion h) @ wire_bytes (hashPrevBlock h)
     @ wire_bytes (hashMerkleRoot h) @ le_bytes32 (nTime h) @ le_bytes32 (nBits h)
     @ le_bytes32 (nNonce h)"
  by (simp add: Serialize_def hash_bytes_wire_bytes)

lemma hex_of_digest:
  "concat (map (\<lambda>i. setw_fill 2 (CHR ''0'') (hex_str (unat (hash ! i)))) [0..<32])
     = hex_of_bytes (map ((!) hash) [0..<32])"
proof -
  have "setw_fill 2 (CHR ''0'') (hex_str (unat b)) = hex2 b" for b :: byte
  proof -
    have "unat b < 16 ^ 2" using unsigned_less [of b, where ?'a = nat] by simp
    then have "setw_fill 2 (CHR ''0'') (hex_str (unat b)) = hex_fixed 2 (unat b)"
      by (intro setw_hex_str) simp_all
    then show ?thesis by (simp add: hex2_fixed)
  qed
  then show ?thesis
    by (simp add: hex_of_bytes_def o_def)
qed

lemma digest_uint256_result:
  "\<exists>u. digest_uint256 hash = Inr u \<and> length u = 8
     \<and> wire_bytes u = rev (map ((!) hash) [0..<32])"
proof -
  let ?bs = "map ((!) hash) [0..<32]"
  have len: "length ?bs = 32" by simp
  then have "length ?bs \<le> 32" by simp
  from SetHex_hex_of_bytes [OF this] len show ?thesis
    by (simp add: digest_uint256_def hex_of_digest del: map_map)
qed

lemma sha256_final_idem: "map ((!) (sha256_final SHA256 d)) [0..<32] = sha256_final SHA256 d"
proof -
  have "length (sha256_final SHA256 d) = 32" by (simp add: sha256_final_def)
  with map_nth [of "sha256_final SHA256 d"] show ?thesis by simp
qed

lemma Hash_result:
  "\<exists>u. Hash SHA256 d = Inr u \<and> length u = 8
     \<and> wire_bytes u = rev (sha256_final SHA256 (sha256_final SHA256 d))"
  using digest_uint256_result [of "sha256_final SHA256 (sha256_final SHA256 d)"]
  by (simp add: Hash_def sha256_final_idem del: map_map)

lemma next_nonce_after_rounds: "next_nonce (after_rounds g k) = after_rounds g (Suc k)"
proof -
  let ?N = "unat (nNonce g)"
  have n: "nNonce g + of_nat k + 1 = (of_nat (?N + Suc k) :: uint32)" by simp
  have d: "(of_nat (?N + Suc k) :: uint32) = 0 \<longleftrightarrow> 2 ^ 32 dvd ?N + Suc k"
    by (simp only: word_of_nat_eq_0_iff) simp
  show ?thesis
  proof (cases "(2::nat) ^ 32 dvd ?N + Suc k")
    case True
    then have z: "nNonce g + of_nat k + 1 = 0"
      by (simp only: n d)
    from True have "Suc (?N + k) mod 2 ^ 32 = 0" by (simp add: mod_eq_0_iff_dvd)
    then have "(?N + Suc k) div 2 ^ 32 = Suc ((?N + k) div 2 ^ 32)"
      by (simp add: div_Suc)
    moreover from z have "nNonce g + (1 + of_nat k) = 0" by (simp add: ac_simps)
    ultimately show ?thesis using z
      by (simp add: next_nonce_def after_rounds_def Let_def ac_simps)
  next
    case False
    then have z: "nNonce g + of_nat k + 1 \<noteq> 0"
      by (simp only: n d) simp
    from False have "Suc (?N + k) mod 2 ^ 32 \<noteq> 0" by (simp add: mod_eq_0_iff_dvd)
    then have "(?N + Suc k) div 2 ^ 32 = (?N + k) div 2 ^ 32"
      by (simp add: div_Suc)
    with z show ?thesis
      by (simp add: next_nonce_def after_rounds_def Let_def add.assoc)
  qed
qed

lemma after_rounds_0: "after_rounds g 0 = g"
proof -
  have "unat (nNonce g) < 2 ^ 32" using unsigned_less [of "nNonce g", where ?'a = nat] by simp
  then show ?thesis by (simp add: after_rounds_def)
qed

lemma mine_loop_invariant:
  assumes run: "mine_loop SHA256 target g h = Some r"
  shows "\<forall>k. g = after_rounds g0 k \<and> h = of_nat k \<longrightarrow>
     (\<exists>m j. r = Inr m \<and> mined_header m = after_rounds g0 j
       \<and> mined_hashes m = of_nat j + 1
       \<and> Hash SHA256 (Serialize (mined_header m)) = Inr (mined_hash m)
       \<and> le256 (mined_hash m) target)"
proof (rule mine_loop.raw_induct [OF _ run])
  fix loop :: "(byte list \<Rightarrow> byte list) \<Rightarrow> uint256 \<Rightarrow> BlockHeader \<Rightarrow> uint64 \<Rightarrow> (error + mined) option"
  fix SHA256 target g h r
  assume IH: "\<And>S t g h r. loop S t g h = Some r \<Longrightarrow>
     \<forall>k. g = after_rounds g0 k \<and> h = of_nat k \<longrightarrow>
     (\<exists>m j. r = Inr m \<and> mined_header m = after_rounds g0 j
       \<and> mined_hashes m = of_nat j + 1
       \<and> Hash S (Serialize (mined_header m)) = Inr (mined_hash m)
       \<and> le256 (mined_hash m) t)"
  assume eq: "(case Hash SHA256 (Serialize g) of Inl e \<Rightarrow> Some (Inl e)
      | Inr hash \<Rightarrow>
          let hashes1 = h + 1
          in if le256 hash target
             then Some (Inr \<lparr>mined_header = g, mined_hash = hash, mined_hashes = hashes1\<rparr>)
             else loop SHA256 target (next_nonce g) hashes1) = Some r"
  obtain u where u: "Hash SHA256 (Serialize g) = Inr u"
    using Hash_result [of SHA256 "Serialize g"] by blast
  show "\<forall>k. g = after_rounds g0 k \<and> h = of_nat k \<longrightarrow>
     (\<exists>m j. r = Inr m \<and> mined_header m = after_rounds g0 j
       \<and> mined_hashes m = of_nat j + 1
       \<and> Hash SHA256 (Serialize (mined_header m)) = Inr (mined_hash m)
       \<and> le256 (mined_hash m) target)"
  proof (intro allI impI, elim conjE)
    fix k assume g: "g = after_rounds g0 k" and h: "h = of_nat k"
    show "\<exists>m j. r = Inr m \<and> mined_header m = after_rounds g0 j
       \<and> mined_hashes m = of_nat j + 1
       \<and> Hash SHA256 (Serialize (mined_header m)) = Inr (mined_hash m)
       \<and> le256 (mined_hash m) target"
    proof (cases "le256 u target")
      case True
      with eq u have "r = Inr \<lparr>mined_header = g, mined_hash = u, mined_hashes = h + 1\<rparr>"
        by (simp add: Let_def)
      with True u g h show ?thesis by auto
    next
      case False
      with eq u have "loop SHA256 target (next_nonce g) (h + 1) = Some r"
        by (simp add: Let_def)
      from IH [OF this] have "next_nonce g = after_rounds g0 (Suc k) \<and> h + 1 = of_nat (Suc k) \<longrightarrow>
         (\<exists>m j. r = Inr m \<and> mined_header m = after_rounds g0 j
           \<and> mined_hashes m = of_nat j + 1
           \<and> Hash SHA256 (Serialize (mined_header m)) = Inr (mined_hash m)
           \<and> le256 (mined_hash m) target)" by (rule spec)
      moreover have "next_nonce g = after_rounds g0 (Suc k)"
        using g by (simp add: next_nonce_after_rounds)
      moreover have "h + 1 = of_nat (Suc k)"
        using h by simp
      ultimately show ?thesis by blast
    qed
  qed
qed

lemma hashes_is_nonce_plus_1:
  assumes "(of_nat (j div 2 ^ 32) :: uint32) = 0"
  shows "unat (of_nat j + 1 :: uint64) = unat (of_nat j :: uint32) + 1"
proof -
  from assms have "(2::nat) ^ 32 dvd j div 2 ^ 32"
    by (simp add: word_of_nat_eq_0_iff)
  then obtain q where q: "j div 2 ^ 32 = 2 ^ 32 * q" ..
  have "j = 2 ^ 32 * (j div 2 ^ 32) + j mod 2 ^ 32" by simp
  with q have j: "j = 2 ^ 64 * q + j mod 2 ^ 32" by simp
  have r: "j mod 2 ^ 32 < 2 ^ 32" by simp
  have "(j + 1) mod 2 ^ 64 = (2 ^ 64 * q + (j mod 2 ^ 32 + 1)) mod 2 ^ 64"
    using j by simp
  also have "\<dots> = (j mod 2 ^ 32 + 1) mod 2 ^ 64"
    by (simp only: mod_mult_self4)
  also have "\<dots> = j mod 2 ^ 32 + 1"
    using r by simp
  finally have "(j + 1) mod 2 ^ 64 = j mod 2 ^ 32 + 1" .
  moreover have "of_nat j + 1 = (of_nat (j + 1) :: uint64)" by simp
  ultimately show ?thesis
    by (simp only: unat_of_nat) simp
qed

lemma kernel_loop_result:
  assumes run: "kernel_loop GetHash hashTarget genesis n = Some r"
  shows "fst r = genesis\<lparr>block_nNonce := snd r\<rparr> \<and> GetHash (fst r) \<le> hashTarget"
proof (rule kernel_loop.raw_induct [OF _ run])
  fix loop :: "(CBlock \<Rightarrow> arith_uint256) \<Rightarrow> arith_uint256 \<Rightarrow> CBlock \<Rightarrow> uint32 \<Rightarrow> (CBlock \<times> uint32) option"
  fix GetHash hashTarget and genesis :: CBlock and n r
  let ?g = "genesis\<lparr>block_nNonce := n\<rparr>"
  assume IH: "\<And>G t g n r. loop G t g n = Some r \<Longrightarrow>
     fst r = g\<lparr>block_nNonce := snd r\<rparr> \<and> G (fst r) \<le> t"
  assume eq: "(let genesis1 = genesis\<lparr>block_nNonce := n\<rparr>; hash = GetHash genesis1
      in if hash \<le> hashTarget then Some (genesis1, n)
         else loop GetHash hashTarget genesis1 (n + 1)) = Some r"
  show "fst r = genesis\<lparr>block_nNonce := snd r\<rparr> \<and> GetHash (fst r) \<le> hashTarget"
  proof (cases "GetHash ?g \<le> hashTarget")
    case True
    with eq have "r = (?g, n)" by (simp add: Let_def)
    with True show ?thesis by simp
  next
    case False
    with eq have "loop GetHash hashTarget ?g (n + 1) = Some r"
      by (simp add: Let_def)
    from IH [OF this] show ?thesis by auto
  qed
qed

subsection \<open>Runs on the concrete inputs\<close>

lemma length_Serialize: "length (Serialize h) = 80"
  by (simp add: Serialize_parts length_le_bytes32 length_wire_bytes)

lemma Serialize_nth_76: "Serialize h ! 76 = ucast (nNonce h)"
proof -
  have "Serialize h ! 76 = le_bytes32 (nNonce h) ! 0"
    by (simp add: Serialize_parts nth_append length_le_bytes32 length_wire_bytes)
  then show ?thesis by (simp add: le_bytes32_byte_of upt4 byte_of_def)
qed

lemma sha256_final_replicate:
  "sha256_final toy_sha (replicate 32 c) = replicate 32 c"
proof -
  have "map ((!) (replicate 32 c)) [0..<length (replicate 32 c)] = replicate 32 c"
    by (rule map_nth)
  then show ?thesis by (simp add: sha256_final_def toy_sha_def)
qed

lemma SetHex_zeros: "SetHex (hex_of_bytes (replicate 32 0)) = Inr zero256"
  by code_simp

lemma SetHex_ffs: "SetHex (hex_of_bytes (replicate 32 0xFF)) = Inr (replicate 8 0xFFFFFFFF)"
  by code_simp

lemma toy_hash:
  "Hash toy_sha (Serialize g) =
     Inr (if ucast (nNonce g) = (2 :: byte) then zero256 else replicate 8 0xFFFFFFFF)"
proof -
  have "sha256_final toy_sha (Serialize g) =
      (if ucast (nNonce g) = (2 :: byte) then replicate 32 0 else replicate 32 0xFF)"
  proof -
    have "map ((!) (replicate 32 c)) [0..<length (replicate 32 c)] = replicate 32 c" for c :: byte
      by (rule map_nth)
    then show ?thesis
      by (simp add: sha256_final_def toy_sha_def length_Serialize Serialize_nth_76)
  qed
  then show ?thesis
    unfolding Hash_def Let_def digest_uint256_def hex_of_digest sha256_final_idem
    by (simp add: sha256_final_replicate SetHex_zeros SetHex_ffs)
qed

lemma toy_mine_loop:
  "mine_loop toy_sha toy_target toy_header 0 =
     Some (Inr \<lparr>mined_header = toy_header\<lparr>nNonce := 2\<rparr>, mined_hash = zero256, mined_hashes = 3\<rparr>)"
proof -
  have v: "uint256_val zero256 = 0" "uint256_val (replicate 8 0xFFFFFFFF) > uint256_val toy_target"
    by (simp_all add: uint256_val_def zero256_def toy_target_def upt8)
  have 0: "mine_loop toy_sha toy_target toy_header 0 =
      mine_loop toy_sha toy_target (toy_header\<lparr>nNonce := 1\<rparr>) 1"
    by (subst mine_loop.simps) (use v in \<open>simp add: toy_hash le256_val next_nonce_def toy_header_def\<close>)
  have 1: "mine_loop toy_sha toy_target (toy_header\<lparr>nNonce := 1\<rparr>) 1 =
      mine_loop toy_sha toy_target (toy_header\<lparr>nNonce := 2\<rparr>) 2"
    by (subst mine_loop.simps) (use v in \<open>simp add: toy_hash le256_val next_nonce_def toy_header_def\<close>)
  have 2: "mine_loop toy_sha toy_target (toy_header\<lparr>nNonce := 2\<rparr>) 2 =
      Some (Inr \<lparr>mined_header = toy_header\<lparr>nNonce := 2\<rparr>, mined_hash = zero256, mined_hashes = 3\<rparr>)"
    by (subst mine_loop.simps) (use v in \<open>simp add: toy_hash le256_val next_nonce_def toy_header_def\<close>)
  from 0 1 2 show ?thesis by simp
qed

lemma toy_kernel:
  "MineCustomCoinGenesisBlock DecodeCompact toy_block_hash toy_block (push_bit 208 0xFFFF) =
     Some (toy_block\<lparr>block_nNonce := 2\<rparr>, 2)"
proof -
  let ?t = "kernel_hashTarget DecodeCompact toy_block (push_bit 208 0xFFFF)"
  have t: "(5 :: arith_uint256) \<le> ?t" "\<not> (push_bit 255 1 :: arith_uint256) \<le> ?t"
    by (simp_all add: kernel_hashTarget_def DecodeCompact_def toy_block_def)
  have 0: "kernel_loop toy_block_hash ?t toy_block 0 =
      kernel_loop toy_block_hash ?t (toy_block\<lparr>block_nNonce := 0\<rparr>) 1"
    by (subst kernel_loop.simps) (use t in \<open>simp add: toy_block_hash_def Let_def\<close>)
  have 1: "kernel_loop toy_block_hash ?t (toy_block\<lparr>block_nNonce := 0\<rparr>) 1 =
      kernel_loop toy_block_hash ?t (toy_block\<lparr>block_nNonce := 1\<rparr>) 2"
    by (subst kernel_loop.simps) (use t in \<open>simp add: toy_block_hash_def Let_def\<close>)
  have 2: "kernel_loop toy_block_hash ?t (toy_block\<lparr>block_nNonce := 1\<rparr>) 2 =
      Some (toy_block\<lparr>block_nNonce := 2\<rparr>, 2)"
    by (subst kernel_loop.simps) (use t in \<open>simp add: toy_block_hash_def Let_def\<close>)
  from 0 1 2 show ?thesis by (simp add: MineCustomCoinGenesisBlock_def)
qed

lemma be_nat_snoc: "be_nat (bs @ [b]) = 256 * be_nat bs + unat b"
  by (simp add: be_nat_def)

lemma le_nat_rev: "le_nat (rev bs) = be_nat bs"
  by (induction bs rule: rev_induct) (simp_all add: be_nat_snoc, simp add: be_nat_def)

lemma digest_uint256_val:
  "\<exists>u. digest_uint256 hash = Inr u \<and> uint256_val u = be_nat (map ((!) hash) [0..<32])"
proof -
  obtain u where "digest_uint256 hash = Inr u"
    and "wire_bytes u = rev (map ((!) hash) [0..<32])"
    using digest_uint256_result [of hash] by blast
  moreover from this have "uint256_val u = be_nat (map ((!) hash) [0..<32])"
    using le_nat_wire_bytes [of u] le_nat_rev [of "map ((!) hash) [0..<32]"] by simp
  ultimately show ?thesis by blast
qed

lemma genesis_digest_words:
  "digest_uint256 genesis_digest =
     Inr [0xdadb19dc, 0x63aa6cf3, 0x2feb7f0d, 0x954dbf84, 0x6fe94642, 0x641c662d, 0x8185bb08,
          0x87715842]"
  by code_simp

lemma genesis_digest_val:
  "uint256_val [0xdadb19dc, 0x63aa6cf3, 0x2feb7f0d, 0x954dbf84, 0x6fe94642, 0x641c662d,
      0x8185bb08, 0x87715842] =
     61262497423736216663057805410725305887945817900052044900510728360688512342492"
  by (simp add: uint256_val_def upt8)

lemma genesis_digest_le:
  "le_nat genesis_digest =
     99554515250291974922418497139906033701054572904063925887357204073054513688967"
  by (simp add: genesis_digest_def)





lemma Serialize_genesis_header:
  "Serialize genesis_header =
     [1, 0, 0, 0,
      0, 0, 0, 0, 0, 0, 0, 0, 0, 0, 0, 0, 0, 0, 0, 0, 0, 0, 0, 0, 0, 0, 0, 0, 0, 0, 0, 0, 0, 0, 0, 0,
      59, 163, 237, 253, 122, 123, 18, 178, 122, 199, 44, 62, 103, 118, 143, 97,
      127, 200, 27, 195, 136, 138, 81, 50, 58, 159, 184, 170, 75, 30, 94, 74,
      32, 195, 150, 103, 255, 255, 0, 29, 0, 0, 0, 0]"
  by (simp add: Serialize_parts genesis_header_def genesis_merkle_def zero256_def
      wire_bytes_def le_bytes32_def upt8 upt4)



lemma next_nonce_cases:
  "next_nonce g = (if nNonce g = 0xFFFFFFFF then g\<lparr>nNonce := 0, nTime := nTime g + 1\<rparr>
     else g\<lparr>nNonce := nNonce g + 1\<rparr>)"
proof (cases "nNonce g = 0xFFFFFFFF")
  case True
  then show ?thesis by (simp add: next_nonce_def Let_def)
next
  case False
  moreover have "(0xFFFFFFFF :: uint32) = - 1" by simp
  ultimately have "nNonce g \<noteq> - 1" by simp
  then have "nNonce g + 1 \<noteq> 0"
    using eq_neg_iff_add_eq_0 [of "nNonce g" 1] by simp
  with False show ?thesis by (simp add: next_nonce_def Let_def)
qed

lemma kernel_loop_wrap_step:
  assumes "\<not> GetHash (genesis\<lparr>block_nNonce := 0xFFFFFFFF\<rparr>) \<le> hashTarget"
  shows "kernel_loop GetHash hashTarget genesis 0xFFFFFFFF =
     kernel_loop GetHash hashTarget (genesis\<lparr>block_nNonce := 0xFFFFFFFF\<rparr>) 0"
proof -
  have w: "(4294967296 :: uint32) = 0" by simp
  from assms show ?thesis
    by (subst kernel_loop.simps) (simp add: Let_def w)
qed

lemma kernel_loop_never_returns:
  assumes "\<And>n. \<not> GetHash (genesis\<lparr>block_nNonce := n\<rparr>) \<le> hashTarget"
  shows "kernel_loop GetHash hashTarget genesis k = None"
proof (cases "kernel_loop GetHash hashTarget genesis k")
  case None
  then show ?thesis .
next
  case (Some r)
  from kernel_loop_result [OF Some]
  have "GetHash (genesis\<lparr>block_nNonce := snd r\<rparr>) \<le> hashTarget"
    by auto
  with assms [of "snd r"] show ?thesis by simp
qed

subsection \<open>The multi-threaded miner and the command line\<close>

lemma MineBlock_loop_exhaust:
  assumes "\<And>b. \<not> GetHash b \<le> target" and "\<not> m_stop_mining m"
    and "unat nonce \<le> unat (m_current_nonce m + 1000)"
  shows "hashed (MineBlock_loop GetHash target nonce block m tested) =
       tested @ map of_nat [unat nonce..<unat (m_current_nonce m + 1000)]
     \<and> \<not> found (MineBlock_loop GetHash target nonce block m tested)
     \<and> m_current_nonce (miner_out (MineBlock_loop GetHash target nonce block m tested)) =
         m_current_nonce m
     \<and> m_stop_mining (miner_out (MineBlock_loop GetHash target nonce block m tested)) =
         m_stop_mining m"
  using assms
proof (induction GetHash target nonce block m tested rule: MineBlock_loop.induct)
  case (1 GetHash target nonce block m tested)
  let ?B = "m_current_nonce m + 1000"
  show ?case
  proof (cases "nonce < ?B")
    case True
    let ?m = "m\<lparr>m_stats := (m_stats m)\<lparr>hashes_computed := hashes_computed (m_stats m) + 1\<rparr>\<rparr>"
    let ?b = "block\<lparr>block_nNonce := nonce\<rparr>"
    from True have lt: "unat nonce < unat ?B" by (simp add: word_less_nat_alt)
    moreover have "unat ?B < 2 ^ 32" using unsigned_less [of ?B, where ?'a = nat] by simp
    ultimately have "unat nonce + 1 < 2 ^ 32" by linarith
    then have suc: "unat (nonce + 1) = unat nonce + 1" by (simp add: unat_word_ariths)
    have step: "MineBlock_loop GetHash target nonce block m tested =
        MineBlock_loop GetHash target (nonce + 1) ?b ?m (tested @ [nonce])"
      using True "1.prems"(1,2) by (subst MineBlock_loop.simps) (simp add: Let_def)
    have IH: "hashed (MineBlock_loop GetHash target (nonce + 1) ?b ?m (tested @ [nonce])) =
         (tested @ [nonce]) @ map of_nat [unat (nonce + 1)..<unat (m_current_nonce ?m + 1000)]
       \<and> \<not> found (MineBlock_loop GetHash target (nonce + 1) ?b ?m (tested @ [nonce]))
       \<and> m_current_nonce (miner_out (MineBlock_loop GetHash target (nonce + 1) ?b ?m (tested @ [nonce]))) =
           m_current_nonce ?m
       \<and> m_stop_mining (miner_out (MineBlock_loop GetHash target (nonce + 1) ?b ?m (tested @ [nonce]))) =
           m_stop_mining ?m"
    proof (rule "1.IH")
      show "nonce < m_current_nonce m + 1000 \<and> \<not> m_stop_mining m"
        using True "1.prems"(2) by simp
      show "?b = block\<lparr>block_nNonce := nonce\<rparr>" by simp
      show "\<not> GetHash ?b \<le> target" by (rule "1.prems"(1))
      show "\<And>b. \<not> GetHash b \<le> target" by (rule "1.prems"(1))
      show "\<not> m_stop_mining ?m" using "1.prems"(2) by simp
      show "unat (nonce + 1) \<le> unat (m_current_nonce ?m + 1000)" using lt suc by simp
    qed
    have "[unat nonce..<unat ?B] = unat nonce # [unat nonce + 1..<unat ?B]"
      using lt by (simp add: upt_conv_Cons)
    with IH suc show ?thesis unfolding step by simp
  next
    case False
    with "1.prems"(3) have "unat nonce = unat ?B"
      by (simp add: word_less_nat_alt)
    with False show ?thesis
      by (subst (1 2 3 4) MineBlock_loop.simps) simp
  qed
qed

lemma hard_hash_fails:
  "\<not> hard_hash b \<le> MineBlock_target DecodeCompact (CreateBlockTemplate c now m)"
  by (simp add: hard_hash_def MineBlock_target_def CreateBlockTemplate_def DecodeCompact_def)

lemma first_call_facts:
  "hashed first_call = map of_nat [0..<2000] \<and> \<not> found first_call
   \<and> m_current_nonce (miner_out first_call) = 1000
   \<and> \<not> m_stop_mining (miner_out first_call)"
proof -
  let ?m = "idle_miner\<lparr>m_current_nonce := m_current_nonce idle_miner + 1000\<rparr>"
  have "\<not> m_stop_mining ?m" "m_current_nonce ?m = 1000" "m_current_nonce idle_miner = 0"
    by (simp_all add: idle_miner_def)
  moreover have "unat (0 :: uint32) \<le> unat (m_current_nonce ?m + 1000)"
    by simp
  ultimately show ?thesis
    using MineBlock_loop_exhaust [of hard_hash
        "MineBlock_target DecodeCompact (CreateBlockTemplate 100000000 1737940000 idle_miner)"
        ?m 0 "CreateBlockTemplate 100000000 1737940000 idle_miner" "[]", OF hard_hash_fails]
    by (simp add: first_call_def MineBlock_def Let_def)
qed

lemma second_call_facts:
  "hashed second_call = map of_nat [1000..<3000] \<and> \<not> found second_call"
proof -
  let ?prev = "miner_out first_call"
  let ?m = "?prev\<lparr>m_current_nonce := m_current_nonce ?prev + 1000\<rparr>"
  have c: "m_current_nonce ?prev = 1000" and st: "\<not> m_stop_mining ?prev"
    using first_call_facts by blast+
  have "\<not> m_stop_mining ?m" "m_current_nonce ?m = 2000" "m_current_nonce ?prev = 1000"
    by (simp_all add: c st)
  moreover have "unat (1000 :: uint32) \<le> unat (m_current_nonce ?m + 1000)"
    using \<open>m_current_nonce ?m = 2000\<close> by simp
  ultimately show ?thesis
    using MineBlock_loop_exhaust [of hard_hash
        "MineBlock_target DecodeCompact (CreateBlockTemplate 100000000 1737940001 ?prev)"
        ?m 1000 "CreateBlockTemplate 100000000 1737940001 ?prev" "[]", OF hard_hash_fails]
    by (simp add: second_call_def MineBlock_def Let_def)
qed

lemma nth_map_of_nat_upt:
  "i < b - a \<Longrightarrow> map (of_nat :: nat \<Rightarrow> uint32) [a..<b] ! i = of_nat (a + i)"
  by (simp only: nth_map length_upt nth_upt less_diff_conv add.commute)

lemma pad20_eq: "pad20 bs = bs @ replicate (20 - length bs) 0"
proof (induction bs rule: pad20.induct)
  case (1 addr_bytes)
  show ?case
  proof (cases "length addr_bytes < 20")
    case True
    then have "20 - length addr_bytes = Suc (20 - length (addr_bytes @ [0 :: byte]))" by simp
    then have "replicate (20 - length addr_bytes) (0 :: byte) =
        0 # replicate (20 - length (addr_bytes @ [0 :: byte])) 0"
      by (simp only: replicate_Suc)
    with True "1.IH" show ?thesis
      by (subst pad20.simps) simp
  next
    case False
    then show ?thesis by (subst pad20.simps) simp
  qed
qed

lemma address_script_eq:
  "address_script address =
     [Op OP_DUP, Op OP_HASH160,
      Push (take 20 (map of_char address) @ replicate (20 - length address) 0),
      Op OP_EQUALVERIFY, Op OP_CHECKSIG]"
  by (simp add: address_script_def pad20_eq Let_def)

lemma mine_loop_reaches:
  assumes "Hash SHA256 (Serialize (after_rounds g0 k)) = Inr h" and "le256 h target"
    and "j \<le> k"
  shows "\<exists>m. mine_loop SHA256 target (after_rounds g0 j) (of_nat j) = Some (Inr m)"
  using assms(3)
proof (induction "k - j" arbitrary: j)
  case 0
  then have "j = k" by simp
  with assms(1,2) show ?case
    by (subst mine_loop.simps) (simp add: Let_def)
next
  case (Suc d)
  obtain u where u: "Hash SHA256 (Serialize (after_rounds g0 j)) = Inr u"
    using Hash_result [of SHA256 "Serialize (after_rounds g0 j)"] by blast
  show ?case
  proof (cases "le256 u target")
    case True
    with u show ?thesis by (subst mine_loop.simps) (simp add: Let_def)
  next
    case False
    from Suc.hyps(2) have "d = k - Suc j" "Suc j \<le> k" by simp_all
    from Suc.hyps(1) [OF this] obtain m where
      "mine_loop SHA256 target (after_rounds g0 (Suc j)) (of_nat (Suc j)) = Some (Inr m)" ..
    with u False show ?thesis
      by (subst mine_loop.simps) (simp add: Let_def next_nonce_after_rounds add.commute)
  qed
qed

section \<open>The claims\<close>

subsection \<open>C1\<close>

text \<open>
  C1. The standalone loop, started at nonce 0 with the hash counter at 0: if it ends, it
  ends with a header that differs from the first one in nonce and time only, whose
  digest (the hash of its serialization) is at most the target as a 256-bit unsigned
  number; and if the time is still the first one (the nonce never wrapped), the hash
  count is the nonce plus one. The kernel's loop: if it ends, the block it leaves is the
  first one with the returned nonce, and that block's hash is at most the threshold.
\<close>

theorem C1_search_result:
  "(nNonce g0 = 0 \<and> mine_loop SHA256 target g0 0 = Some r \<longrightarrow>
      (\<exists>m. r = Inr m
         \<and> mined_header m = g0\<lparr>nNonce := nNonce (mined_header m), nTime := nTime (mined_header m)\<rparr>
         \<and> Hash SHA256 (Serialize (mined_header m)) = Inr (mined_hash m)
         \<and> uint256_val (mined_hash m) \<le> uint256_val target
         \<and> (nTime (mined_header m) = nTime g0 \<longrightarrow>
              unat (mined_hashes m) = unat (nNonce (mined_header m)) + 1)))
   \<and> (MineCustomCoinGenesisBlock SetCompact GetHash genesis lim = Some (b, n) \<longrightarrow>
        b = genesis\<lparr>block_nNonce := n\<rparr>
        \<and> GetHash b \<le> kernel_hashTarget SetCompact genesis lim)"
proof (intro conjI impI)
  assume a: "nNonce g0 = 0 \<and> mine_loop SHA256 target g0 0 = Some r"
  then have z: "nNonce g0 = 0" and run: "mine_loop SHA256 target g0 0 = Some r" by simp_all
  have "g0 = after_rounds g0 0 \<and> (0 :: uint64) = of_nat 0"
    by (simp add: after_rounds_0)
  with mine_loop_invariant [OF run, of g0] obtain m j where
    r: "r = Inr m" and hd: "mined_header m = after_rounds g0 j"
    and cnt: "mined_hashes m = of_nat j + 1"
    and hash: "Hash SHA256 (Serialize (mined_header m)) = Inr (mined_hash m)"
    and le: "le256 (mined_hash m) target"
    by blast
  from hd z have nonce: "nNonce (mined_header m) = of_nat j"
    and time: "nTime (mined_header m) = nTime g0 + of_nat (j div 2 ^ 32)"
    by (simp_all add: after_rounds_def)
  have frame: "mined_header m = g0\<lparr>nNonce := nNonce (mined_header m), nTime := nTime (mined_header m)\<rparr>"
    unfolding hd by (simp add: after_rounds_def)
  have count: "unat (mined_hashes m) = unat (nNonce (mined_header m)) + 1"
    if "nTime (mined_header m) = nTime g0"
  proof -
    from that time have "(of_nat (j div 2 ^ 32) :: uint32) = 0" by simp
    then show ?thesis unfolding cnt nonce by (rule hashes_is_nonce_plus_1)
  qed
  from r frame hash le count
  show "\<exists>m. r = Inr m
         \<and> mined_header m = g0\<lparr>nNonce := nNonce (mined_header m), nTime := nTime (mined_header m)\<rparr>
         \<and> Hash SHA256 (Serialize (mined_header m)) = Inr (mined_hash m)
         \<and> uint256_val (mined_hash m) \<le> uint256_val target
         \<and> (nTime (mined_header m) = nTime g0 \<longrightarrow>
              unat (mined_hashes m) = unat (nNonce (mined_header m)) + 1)"
    by (auto simp: le256_val)
next
  assume "MineCustomCoinGenesisBlock SetCompact GetHash genesis lim = Some (b, n)"
  then have run: "kernel_loop GetHash (kernel_hashTarget SetCompact genesis lim) genesis 0 = Some (b, n)"
    by (simp add: MineCustomCoinGenesisBlock_def)
  from kernel_loop_result [OF run] show "b = genesis\<lparr>block_nNonce := n\<rparr>" by simp
  from kernel_loop_result [OF run]
  show "GetHash b \<le> kernel_hashTarget SetCompact genesis lim" by auto
qed

text \<open>
  A run of each loop: the third nonce tried, 2, is the first whose digest is low enough.
\<close>

theorem C1_search_result_witness:
  "nNonce toy_header = 0
   \<and> mine_loop toy_sha toy_target toy_header 0 =
       Some (Inr \<lparr>mined_header = toy_header\<lparr>nNonce := 2\<rparr>, mined_hash = zero256, mined_hashes = 3\<rparr>)
   \<and> Hash toy_sha (Serialize (toy_header\<lparr>nNonce := 2\<rparr>)) = Inr zero256
   \<and> uint256_val zero256 \<le> uint256_val toy_target
   \<and> unat (3 :: uint64) = unat (2 :: uint32) + 1
   \<and> MineCustomCoinGenesisBlock DecodeCompact toy_block_hash toy_block (push_bit 208 0xFFFF) =
       Some (toy_block\<lparr>block_nNonce := 2\<rparr>, 2)
   \<and> toy_block_hash (toy_block\<lparr>block_nNonce := 2\<rparr>)
       \<le> kernel_hashTarget DecodeCompact toy_block (push_bit 208 0xFFFF)"
  using C1_search_result [of toy_header toy_sha toy_target
      "Inr \<lparr>mined_header = toy_header\<lparr>nNonce := 2\<rparr>, mined_hash = zero256, mined_hashes = 3\<rparr>"
      DecodeCompact toy_block_hash toy_block "push_bit 208 0xFFFF" "toy_block\<lparr>block_nNonce := 2\<rparr>" 2]
    toy_mine_loop toy_kernel
  by (simp add: toy_header_def)

subsection \<open>C2\<close>

text \<open>
  C2. The digest is the hash function applied twice. Its 32 bytes are then read as a
  number with the first byte the most significant one (big-endian), not the least: for
  every digest the value of the \<^verbatim>\<open>uint256\<close> is the big-endian number of the bytes.
  For the double SHA-256 of the genesis header at nonce 0 (\<open>genesis_digest\<close>) the
  miner's number is 6126...2492, the little-endian reading of the same bytes 9955...8967.
\<close>

theorem C2_digest_read_big_endian:
  "Hash SHA256 data = digest_uint256 (sha256_final SHA256 (sha256_final SHA256 data))
   \<and> (\<exists>u. digest_uint256 hash = Inr u \<and> uint256_val u = be_nat (map ((!) hash) [0..<32]))
   \<and> digest_uint256 genesis_digest =
       Inr [0xdadb19dc, 0x63aa6cf3, 0x2feb7f0d, 0x954dbf84, 0x6fe94642, 0x641c662d, 0x8185bb08,
            0x87715842]
   \<and> uint256_val [0xdadb19dc, 0x63aa6cf3, 0x2feb7f0d, 0x954dbf84, 0x6fe94642, 0x641c662d,
        0x8185bb08, 0x87715842] =
       61262497423736216663057805410725305887945817900052044900510728360688512342492
   \<and> le_nat genesis_digest =
       99554515250291974922418497139906033701054572904063925887357204073054513688967"
  using digest_uint256_val [of hash] genesis_digest_words genesis_digest_val genesis_digest_le
  by (simp add: Hash_def)

subsection \<open>C3\<close>


subsection \<open>C4\<close>

text \<open>
  C4. The kernel's loop never changes the time of the block: when its nonce wraps it goes
  on with the headers it has already tried. For a block none of whose \<open>2^32\<close> nonces
  meets the threshold at its time 1737933600, \<^verbatim>\<open>MineCustomCoinGenesisBlock\<close> never
  returns, although the block with the time plus one meets the threshold at nonce 0. The
  standalone loop at nonce \<open>0xFFFFFFFF\<close> goes on with nonce 0 and the time plus one.
\<close>

theorem C4_kernel_wrap_keeps_time:
  "MineCustomCoinGenesisBlock DecodeCompact stale_hash toy_block (push_bit 208 0xFFFF) = None
   \<and> block_nTime toy_block = 1737933600
   \<and> stale_hash (toy_block\<lparr>block_nTime := block_nTime toy_block + 1, block_nNonce := 0\<rparr>)
       \<le> kernel_hashTarget DecodeCompact toy_block (push_bit 208 0xFFFF)
   \<and> next_nonce (toy_header\<lparr>nNonce := 0xFFFFFFFF\<rparr>) =
       toy_header\<lparr>nNonce := 0, nTime := nTime toy_header + 1\<rparr>"
proof -
  let ?t = "kernel_hashTarget DecodeCompact toy_block (push_bit 208 0xFFFF)"
  have t: "?t = push_bit 208 0xFFFF"
    by (simp add: kernel_hashTarget_def DecodeCompact_def toy_block_def)
  have "\<not> stale_hash (toy_block\<lparr>block_nNonce := n\<rparr>) \<le> ?t" for n
    unfolding t by (simp add: stale_hash_def toy_block_def)
  then have "kernel_loop stale_hash ?t toy_block 0 = None"
    by (rule kernel_loop_never_returns)
  then have a: "MineCustomCoinGenesisBlock DecodeCompact stale_hash toy_block (push_bit 208 0xFFFF) = None"
    by (simp add: MineCustomCoinGenesisBlock_def)
  have b: "stale_hash (toy_block\<lparr>block_nTime := block_nTime toy_block + 1, block_nNonce := 0\<rparr>) \<le> ?t"
    by (simp add: stale_hash_def toy_block_def)
  have c: "next_nonce (toy_header\<lparr>nNonce := 0xFFFFFFFF\<rparr>) =
       toy_header\<lparr>nNonce := 0, nTime := nTime toy_header + 1\<rparr>"
    by (simp add: next_nonce_cases)
  have d: "block_nTime toy_block = 1737933600" by (simp add: toy_block_def)
  from a b c d show ?thesis by blast
qed

subsection \<open>C5\<close>



subsection \<open>C6\<close>


subsection \<open>C7\<close>

text \<open>
  C7. Two calls of \<^verbatim>\<open>MineBlock\<close> one after the other by one thread, the counter at
  0, no stop request, no header meeting the target: the first call claims the nonces 0
  to 999 (the counter is 1000 afterwards) but hashes 0 to 1999, the second claims 1000 to
  1999 and hashes 1000 to 2999. The nonces 1000 to 1999 are hashed by both calls.
\<close>

theorem C7_calls_overlap:
  "m_current_nonce idle_miner = 0
   \<and> hashed first_call = map of_nat [0..<2000]
   \<and> m_current_nonce (miner_out first_call) = 1000
   \<and> hashed second_call = map of_nat [1000..<3000]
   \<and> hashed first_call ! 1000 = 1000 \<and> hashed second_call ! 0 = 1000
   \<and> set (hashed first_call) \<inter> set (hashed second_call) = of_nat ` {1000..<2000}"
proof -
  have h1: "hashed first_call = map of_nat [0..<2000]"
    and c1: "m_current_nonce (miner_out first_call) = 1000"
    using first_call_facts by blast+
  have h2: "hashed second_call = map of_nat [1000..<3000]"
    using second_call_facts by blast
  have a1: "hashed first_call ! 1000 = 1000"
    unfolding h1 using nth_map_of_nat_upt [of 1000 2000 0] by simp
  have a2: "hashed second_call ! 0 = 1000"
    unfolding h2 using nth_map_of_nat_upt [of 0 3000 1000] by simp
  have i: "set (hashed first_call) \<inter> set (hashed second_call) = (of_nat ` {1000..<2000} :: uint32 set)"
  proof -
    have inj: "inj_on (of_nat :: nat \<Rightarrow> uint32) {0..<3000}"
      by (rule inj_onI) (simp add: word_of_nat_eq_iff take_bit_nat_eq_self)
    have "set (hashed first_call) \<inter> set (hashed second_call) =
        (of_nat ` {0..<2000} \<inter> of_nat ` {1000..<3000} :: uint32 set)"
      unfolding h1 h2 by (simp only: set_map set_upt)
    also have "\<dots> = of_nat ` ({0..<2000} \<inter> {1000..<3000})"
      by (rule inj_on_image_Int [OF inj, symmetric]) auto
    also have "{0..<2000} \<inter> {1000..<3000} = {1000..<2000::nat}" by auto
    finally show ?thesis .
  qed
  have z: "m_current_nonce idle_miner = 0" by (simp add: idle_miner_def)
  from z h1 c1 h2 a1 a2 i show ?thesis by blast
qed

subsection \<open>C8\<close>

text \<open>
  C8. A hex string of more than 64 characters is not parsed at all: \<^verbatim>\<open>SetHex\<close>
  leaves the value it cleared first, the number zero, whatever the string holds.
\<close>

theorem C8_overlong_hex_is_zero:
  "length hex > 64 \<Longrightarrow> SetHex hex = Inr zero256 \<and> uint256_val zero256 = 0"
  by (simp add: SetHex_def uint256_val_def zero256_def upt8)

theorem C8_overlong_hex_witness:
  "length (replicate 65 (CHR ''f'')) > 64
   \<and> SetHex (replicate 65 (CHR ''f'')) = Inr zero256 \<and> uint256_val zero256 = 0"
  using C8_overlong_hex_is_zero [of "replicate 65 (CHR ''f'')"] by simp

subsection \<open>C9\<close>

text \<open>
  C9. \<^verbatim>\<open>StartMining\<close> on a miner that is already mining returns false and leaves
  the whole miner as it was: configuration, stop flag, statistics and threads.
\<close>

theorem C9_start_while_mining:
  "is_mining (m_stats m) \<Longrightarrow> StartMining config now m = (False, m)"
  by (simp add: StartMining_def)

theorem C9_start_while_mining_witness:
  "is_mining (m_stats busy_miner)
   \<and> StartMining (OptimizeMiningConfig 8) 1737940000 busy_miner = (False, busy_miner)"
  using C9_start_while_mining [of busy_miner "OptimizeMiningConfig 8" 1737940000]
  by (simp add: busy_miner_def)

subsection \<open>C10\<close>

text \<open>
  C10. With \<^verbatim>\<open>-address\<close> set to any non-empty string (and \<^verbatim>\<open>-threads\<close> not set,
  or set to a positive number) \<^verbatim>\<open>SetupMiner\<close> succeeds and the reward script is the
  one made from the string: the pay-to-public-key-hash form around exactly 20 bytes, the
  first 20 bytes of the string, padded with zero bytes if the string is shorter. Two
  strings with the same first 20 bytes give the same script.
\<close>

theorem C10_address_first_20_bytes:
  "(arg_address gArgs = Some address \<and> address \<noteq> []
      \<and> (case arg_threads gArgs of None \<Rightarrow> True | Some n \<Rightarrow> 0 < sint (ucast n :: 32 word))
      \<longrightarrow> fst (SetupMiner hw gArgs)
          \<and> mining_address (snd (SetupMiner hw gArgs)) = address_script address)
   \<and> address_script address =
       [Op OP_DUP, Op OP_HASH160,
        Push (take 20 (map of_char address) @ replicate (20 - length address) 0),
        Op OP_EQUALVERIFY, Op OP_CHECKSIG]
   \<and> length (take 20 (map of_char address :: byte list) @ replicate (20 - length address) 0) = 20
   \<and> (take 20 a1 = take 20 a2 \<longrightarrow> address_script a1 = address_script a2)"
proof (intro conjI impI)
  assume "arg_address gArgs = Some address \<and> address \<noteq> []
      \<and> (case arg_threads gArgs of None \<Rightarrow> True | Some n \<Rightarrow> 0 < sint (ucast n :: 32 word))"
  then show "fst (SetupMiner hw gArgs)"
    and "mining_address (snd (SetupMiner hw gArgs)) = address_script address"
    by (auto simp: SetupMiner_def Let_def split: option.splits)
next
  show "address_script address =
       [Op OP_DUP, Op OP_HASH160,
        Push (take 20 (map of_char address) @ replicate (20 - length address) 0),
        Op OP_EQUALVERIFY, Op OP_CHECKSIG]"
    by (rule address_script_eq)
next
  show "length (take 20 (map of_char address :: byte list) @ replicate (20 - length address) 0) = 20"
    by simp
next
  assume t: "take 20 a1 = take 20 a2"
  then have "length (take 20 a1) = length (take 20 a2)" by simp
  then have "20 - length a1 = 20 - length a2" by (simp add: min_def split: if_splits)
  moreover from t have "take 20 (map of_char a1 :: byte list) = take 20 (map of_char a2)"
    by (simp add: take_map)
  ultimately show "address_script a1 = address_script a2"
    by (simp add: address_script_eq)
qed

text \<open>
  An address of 28 characters, two addresses that differ after their 20th character, and
  an address of 4 characters.
\<close>

theorem C10_address_witness:
  "arg_address example_args = Some ''sc1qexampleaddress0123456789''
   \<and> fst (SetupMiner 8 example_args)
   \<and> mining_address (snd (SetupMiner 8 example_args)) =
       [Op OP_DUP, Op OP_HASH160, Push (map of_char ''sc1qexampleaddress01''),
        Op OP_EQUALVERIFY, Op OP_CHECKSIG]
   \<and> take 20 ''sc1qexampleaddress01-one'' = take 20 ''sc1qexampleaddress01-another''
   \<and> address_script ''sc1qexampleaddress01-one'' = address_script ''sc1qexampleaddress01-another''
   \<and> address_script ''sc1q'' =
       [Op OP_DUP, Op OP_HASH160,
        Push ([0x73, 0x63, 0x31, 0x71] @ replicate 16 0),
        Op OP_EQUALVERIFY, Op OP_CHECKSIG]"
proof -
  note t = C10_address_first_20_bytes [where gArgs = example_args
      and address = "''sc1qexampleaddress0123456789''" and hw = 8
      and ?a1.0 = "''sc1qexampleaddress01-one''" and ?a2.0 = "''sc1qexampleaddress01-another''"]
  note u = C10_address_first_20_bytes [where gArgs = example_args
      and address = "''sc1q''" and hw = 8
      and ?a1.0 = "''sc1qexampleaddress01-one''" and ?a2.0 = "''sc1qexampleaddress01-another''"]
  have a: "arg_address example_args = Some ''sc1qexampleaddress0123456789''"
    and b: "(case arg_threads example_args of None \<Rightarrow> True | Some n \<Rightarrow> 0 < sint (ucast n :: 32 word))"
    by (simp_all add: example_args_def)
  have c: "take 20 ''sc1qexampleaddress01-one'' = take 20 ''sc1qexampleaddress01-another''"
    by simp
  from t a b c have "fst (SetupMiner 8 example_args)"
    and "mining_address (snd (SetupMiner 8 example_args)) =
       address_script ''sc1qexampleaddress0123456789''"
    and "address_script ''sc1qexampleaddress01-one'' = address_script ''sc1qexampleaddress01-another''"
    and "address_script ''sc1qexampleaddress0123456789'' =
       [Op OP_DUP, Op OP_HASH160,
        Push (take 20 (map of_char ''sc1qexampleaddress0123456789'') @
              replicate (20 - length ''sc1qexampleaddress0123456789'') 0),
        Op OP_EQUALVERIFY, Op OP_CHECKSIG]"
    by blast+
  moreover from u have "address_script ''sc1q'' =
       [Op OP_DUP, Op OP_HASH160,
        Push (take 20 (map of_char ''sc1q'') @ replicate (20 - length ''sc1q'') 0),
        Op OP_EQUALVERIFY, Op OP_CHECKSIG]"
    by blast
  ultimately show ?thesis using a c by simp
qed

subsection \<open>X1\<close>

text \<open>
  X1. The standalone loop ends whenever some round has a digest at most the target: if
  the header after \<open>k\<close> increments hashes to such a digest, the loop started at that
  header's first state returns a result.
\<close>

theorem X1_search_terminates:
  "Hash SHA256 (Serialize (after_rounds g0 k)) = Inr h \<and> le256 h target \<longrightarrow>
     (\<exists>m. mine_loop SHA256 target g0 0 = Some (Inr m))"
proof
  assume "Hash SHA256 (Serialize (after_rounds g0 k)) = Inr h \<and> le256 h target"
  then have "\<exists>m. mine_loop SHA256 target (after_rounds g0 0) (of_nat 0) = Some (Inr m)"
    by (intro mine_loop_reaches [of SHA256 g0 k h target 0]) simp_all
  then show "\<exists>m. mine_loop SHA256 target g0 0 = Some (Inr m)"
    by (simp add: after_rounds_0)
qed

text \<open>
  With the stand-in hash the round after two increments meets the target.
\<close>

theorem X1_search_terminates_witness:
  "Hash toy_sha (Serialize (after_rounds toy_header 2)) = Inr zero256
   \<and> le256 zero256 toy_target
   \<and> (\<exists>m. mine_loop toy_sha toy_target toy_header 0 = Some (Inr m))"
proof -
  have a: "Hash toy_sha (Serialize (after_rounds toy_header 2)) = Inr zero256"
    by (simp add: toy_hash after_rounds_def toy_header_def)
  have b: "le256 zero256 toy_target"
    by (simp add: le256_val uint256_val_def zero256_def toy_target_def upt8)
  from X1_search_terminates [of toy_sha toy_header 2 zero256 toy_target] a b
  show ?thesis by blast
qed

subsection \<open>X2\<close>

text \<open>
  X2. The comparisons of \<^verbatim>\<open>uint256\<close> are those of the unsigned 256-bit numbers the
  eight words stand for, most significant word first.
\<close>

theorem X2_order_is_numeric:
  "(less256 a b \<longleftrightarrow> uint256_val a < uint256_val b)
   \<and> (eq256 a b \<longleftrightarrow> uint256_val a = uint256_val b)
   \<and> (le256 a b \<longleftrightarrow> uint256_val a \<le> uint256_val b)
   \<and> uint256_val a < 2 ^ 256"
  using words_val_less [of a 8]
  by (simp add: less256_val eq256_val le256_val uint256_val_words)

subsection \<open>X3\<close>

text \<open>
  X3. In the standalone miner's loop an increment of the nonce past \<open>0xFFFFFFFF\<close> gives
  nonce 0 and the time plus one, any other increment changes the nonce only, and no other
  field changes: from nonce \<open>0xFFFFFFFE\<close> two increments give nonce 0 and the time plus
  one. This increment is the step the loop takes after a digest above the target.
\<close>

theorem X3_standalone_nonce_wrap:
  "next_nonce g =
     (if nNonce g = 0xFFFFFFFF then g\<lparr>nNonce := 0, nTime := nTime g + 1\<rparr>
      else g\<lparr>nNonce := nNonce g + 1\<rparr>)
   \<and> (nNonce g = 0xFFFFFFFE \<longrightarrow>
        next_nonce (next_nonce g) = g\<lparr>nNonce := 0, nTime := nTime g + 1\<rparr>)
   \<and> (Hash SHA256 (Serialize g) = Inr h \<and> \<not> le256 h target \<longrightarrow>
        mine_loop SHA256 target g n = mine_loop SHA256 target (next_nonce g) (n + 1))"
proof (intro conjI impI)
  show "next_nonce g =
     (if nNonce g = 0xFFFFFFFF then g\<lparr>nNonce := 0, nTime := nTime g + 1\<rparr>
      else g\<lparr>nNonce := nNonce g + 1\<rparr>)"
    by (rule next_nonce_cases)
next
  assume "nNonce g = 0xFFFFFFFE"
  then show "next_nonce (next_nonce g) = g\<lparr>nNonce := 0, nTime := nTime g + 1\<rparr>"
    by (simp add: next_nonce_cases)
next
  assume "Hash SHA256 (Serialize g) = Inr h \<and> \<not> le256 h target"
  then show "mine_loop SHA256 target g n = mine_loop SHA256 target (next_nonce g) (n + 1)"
    by (subst mine_loop.simps) (simp add: Let_def)
qed

text \<open>
  The standalone header at nonce \<open>0xFFFFFFFE\<close>, with the stand-in hash.
\<close>

theorem X3_standalone_nonce_wrap_witness:
  "nNonce wrap_header = 0xFFFFFFFE
   \<and> next_nonce (next_nonce wrap_header) = wrap_header\<lparr>nNonce := 0, nTime := nTime wrap_header + 1\<rparr>
   \<and> Hash toy_sha (Serialize wrap_header) = Inr (replicate 8 0xFFFFFFFF)
   \<and> \<not> le256 (replicate 8 0xFFFFFFFF) toy_target
   \<and> mine_loop toy_sha toy_target wrap_header 7 =
       mine_loop toy_sha toy_target (next_nonce wrap_header) (7 + 1)"
proof -
  have n: "nNonce wrap_header = 0xFFFFFFFE" by (simp add: wrap_header_def)
  have h: "Hash toy_sha (Serialize wrap_header) = Inr (replicate 8 0xFFFFFFFF)"
    by (simp add: toy_hash wrap_header_def)
  have l: "\<not> le256 (replicate 8 0xFFFFFFFF) toy_target"
    by (simp add: le256_val uint256_val_def toy_target_def upt8)
  from X3_standalone_nonce_wrap [where g = wrap_header and ?SHA256.0 = toy_sha
      and h = "replicate 8 0xFFFFFFFF" and target = toy_target and n = 7]
    n h l
  show ?thesis by blast
qed

end
